theory Spec2Isabelle
  imports Complex_Main
begin

section \<open>Numeric values\<close>

text \<open>
  The arrays of \<^verbatim>\<open>memoized_outlier_detector.py\<close> hold floats whose missing-value
  sentinel is not-a-number.  A value is modelled as \<open>real option\<close>: \<open>None\<close> is NaN,
  \<open>Some x\<close> a finite float idealised as the real \<open>x\<close> (rounding and the infinities are
  left out).  Arithmetic propagates NaN, and every comparison with NaN is false, as in
  IEEE arithmetic.
\<close>

type_synonym val = "real option"

definition isnan :: "val \<Rightarrow> bool" where
  "isnan v = (v = None)"

definition fadd :: "val \<Rightarrow> val \<Rightarrow> val" where
  "fadd a b = (case (a, b) of (Some x, Some y) \<Rightarrow> Some (x + y) | _ \<Rightarrow> None)"

definition fsub :: "val \<Rightarrow> val \<Rightarrow> val" where
  "fsub a b = (case (a, b) of (Some x, Some y) \<Rightarrow> Some (x - y) | _ \<Rightarrow> None)"

definition fmul :: "val \<Rightarrow> val \<Rightarrow> val" where
  "fmul a b = (case (a, b) of (Some x, Some y) \<Rightarrow> Some (x * y) | _ \<Rightarrow> None)"

definition fless :: "val \<Rightarrow> val \<Rightarrow> bool" where
  "fless a b = (case (a, b) of (Some x, Some y) \<Rightarrow> x < y | _ \<Rightarrow> False)"

text \<open>\<^verbatim>\<open>sum(~np.isnan(col))\<close>: the number of non-missing entries.\<close>

definition count_nonnan :: "val list \<Rightarrow> nat" where
  "count_nonnan col = length (filter (\<lambda>v. \<not> isnan v) col)"

text \<open>The non-missing entries of a column, in order.\<close>

definition nonnan :: "val list \<Rightarrow> real list" where
  "nonnan col = map the (filter (\<lambda>v. \<not> isnan v) col)"

text \<open>
  \<^verbatim>\<open>np.percentile\<close> with its default linear interpolation, on a non-empty list: the
  virtual index \<open>q / 100 * (n - 1)\<close> into the sorted values, interpolated between its two
  neighbours.
\<close>

definition percentile :: "real list \<Rightarrow> real \<Rightarrow> real" where
  "percentile xs q =
     (let s = sort xs;
          n = length s;
          pos = q / 100 * real (n - 1);
          lo = nat \<lfloor>pos\<rfloor>;
          hi = min (lo + 1) (n - 1)
      in s ! lo + (s ! hi - s ! lo) * (pos - real lo))"

text \<open>\<^verbatim>\<open>np.nanpercentile\<close>: NaN entries are dropped; an all-NaN column gives NaN.\<close>

definition nanpercentile :: "val list \<Rightarrow> real \<Rightarrow> val" where
  "nanpercentile col q =
     (let xs = nonnan col in if xs = [] then None else Some (percentile xs q))"

text \<open>\<^verbatim>\<open>np.nanmedian\<close>: the middle sorted value, or the mean of the two middle ones.\<close>

definition nanmedian :: "val list \<Rightarrow> val" where
  "nanmedian col =
     (let s = sort (nonnan col); n = length s
      in if n = 0 then None
         else if odd n then Some (s ! (n div 2))
         else Some ((s ! (n div 2 - 1) + s ! (n div 2)) / 2))"

section \<open>The robust window test \<^verbatim>\<open>is_outlier\<close>\<close>

text \<open>The local variables of \<^verbatim>\<open>is_outlier\<close>, in the order the source computes them.\<close>

definition q25 :: "val list \<Rightarrow> int \<Rightarrow> val" where
  "q25 col min_num_points =
     (if int (count_nonnan col) \<ge> min_num_points then nanpercentile col 25 else None)"

definition q75 :: "val list \<Rightarrow> int \<Rightarrow> val" where
  "q75 col min_num_points =
     (if int (count_nonnan col) \<ge> min_num_points then nanpercentile col 75 else None)"

definition iqr_stdev :: "val list \<Rightarrow> int \<Rightarrow> val" where
  "iqr_stdev col min_num_points =
     (case (q75 col min_num_points, q25 col min_num_points) of
        (Some a, Some b) \<Rightarrow> Some (\<bar>a - b\<bar> / 1.35)
      | _ \<Rightarrow> None)"

definition cut_off :: "val list \<Rightarrow> real \<Rightarrow> int \<Rightarrow> val" where
  "cut_off col std_dev_limit min_num_points =
     fmul (iqr_stdev col min_num_points) (Some std_dev_limit)"

text \<open>
  The returned expression is \<^verbatim>\<open>False if isnan(cut_off) | isnan(data_point) | (lo < data_point < hi) else True\<close>.
\<close>

definition is_outlier :: "val list \<Rightarrow> val \<Rightarrow> real \<Rightarrow> int \<Rightarrow> bool" where
  "is_outlier col data_point std_dev_limit min_num_points =
     (let c = cut_off col std_dev_limit min_num_points
      in if isnan c \<or> isnan data_point \<or>
            (fless (fsub (nanmedian col) c) data_point \<and>
             fless data_point (fadd (nanmedian col) c))
         then False else True)"

section \<open>Arrays\<close>

text \<open>
  A two-dimensional numpy array is its number of columns and its list of rows; the shape
  is \<open>(nrows, ncols)\<close>, so that an array with no rows still has a column count.  numpy
  arrays are rectangular: \<open>rect\<close> says that every row has \<open>ncols\<close> entries.
  A one-dimensional array is a list.
\<close>

datatype 'a array2 = Array2 (ncols: nat) (rows: "'a list list")

datatype 'a ndarray = A1 "'a list" | A2 "'a array2"

definition nrows :: "'a array2 \<Rightarrow> nat" where
  "nrows a = length (rows a)"

definition rect :: "'a array2 \<Rightarrow> bool" where
  "rect a = list_all (\<lambda>r. length r = ncols a) (rows a)"

definition shape2 :: "'a array2 \<Rightarrow> nat list" where
  "shape2 a = [nrows a, ncols a]"

fun shape :: "'a ndarray \<Rightarrow> nat list" where
  "shape (A1 xs) = [length xs]"
| "shape (A2 a) = shape2 a"

text \<open>\<^verbatim>\<open>np.zeros(shape)\<close> and its boolean counterpart: a constant array.\<close>

definition full :: "nat \<Rightarrow> nat \<Rightarrow> 'a \<Rightarrow> 'a array2" where
  "full r c v = Array2 c (replicate r (replicate c v))"

text \<open>
  \<^verbatim>\<open>if len(data.shape) == 1: data = np.reshape(np.array(data), (-1, 1))\<close>: a
  one-dimensional array becomes a single column; a two-dimensional one is kept.
\<close>

fun as_columns :: "'a ndarray \<Rightarrow> 'a array2" where
  "as_columns (A1 xs) = Array2 1 (map (\<lambda>x. [x]) xs)"
| "as_columns (A2 a) = a"

text \<open>\<^verbatim>\<open>frame[:, i]\<close>: column \<open>i\<close> of an array.\<close>

definition column :: "'a array2 \<Rightarrow> nat \<Rightarrow> 'a list" where
  "column a i = map (\<lambda>r. r ! i) (rows a)"

text \<open>
  Python's slice \<^verbatim>\<open>xs[start:stop]\<close> with optional bounds: a negative bound counts
  from the end, and every bound is clamped into \<open>[0, len]\<close>; slicing never raises.
\<close>

definition slice_bound :: "int \<Rightarrow> int \<Rightarrow> int" where
  "slice_bound n i = (if i < 0 then max (i + n) 0 else min i n)"

definition py_slice :: "int option \<Rightarrow> int option \<Rightarrow> 'a list \<Rightarrow> 'a list" where
  "py_slice start stop xs =
     (let n = int (length xs);
          a = (case start of None \<Rightarrow> 0 | Some i \<Rightarrow> slice_bound n i);
          b = (case stop of None \<Rightarrow> n | Some i \<Rightarrow> slice_bound n i)
      in take (nat (b - a)) (drop (nat a) xs))"

text \<open>\<^verbatim>\<open>data[start:stop, ]\<close>: a block of rows, all columns.\<close>

definition slice_rows :: "int option \<Rightarrow> int option \<Rightarrow> 'a array2 \<Rightarrow> 'a array2" where
  "slice_rows start stop a = Array2 (ncols a) (py_slice start stop (rows a))"

section \<open>The window generator \<^verbatim>\<open>byFrameGeneratorFactory\<close>\<close>

text \<open>
  The body of the \<^verbatim>\<open>for idx in range(data.shape[0])\<close> loop of \<^verbatim>\<open>generator\<close>:
  the window yielded for row \<open>idx\<close>.  \<open>frame\<close> is \<^verbatim>\<open>self._frame\<close>, an integer.
\<close>

definition frame_at :: "int \<Rightarrow> 'a array2 \<Rightarrow> int \<Rightarrow> 'a array2" where
  "frame_at frame data idx =
     (if frame \<le> idx \<and> idx < int (nrows data) - frame
      then slice_rows (Some (idx - frame)) (Some (idx + frame + 1)) data
      else if idx < frame
      then slice_rows None (Some (2 * frame + 1)) data
      else slice_rows (Some (- 2 * frame - 1)) None data)"

text \<open>The sequence of windows the generator yields, one per row index, in order.\<close>

definition generator :: "int \<Rightarrow> 'a array2 \<Rightarrow> 'a array2 list" where
  "generator frame data = map (\<lambda>idx. frame_at frame data (int idx)) [0..<nrows data]"

section \<open>One sweep: \<^verbatim>\<open>InterquartileVarianceAlgorithm.outliers\<close>\<close>

text \<open>
  The configuration: \<^verbatim>\<open>_frame\<close> of the generator factory (its \<^verbatim>\<open>span()\<close>),
  \<^verbatim>\<open>_stdev_limit\<close> and \<^verbatim>\<open>_min_num_points\<close> of the algorithm.
\<close>

record config =
  frame :: int
  stdev_limit :: real
  min_num_points :: int

definition span_of :: "config \<Rightarrow> int" where
  "span_of cfg = frame cfg"

text \<open>\<^verbatim>\<open>min(2 * span + 1, self._min_num_points)\<close>.\<close>

definition min_points_used :: "config \<Rightarrow> int" where
  "min_points_used cfg = min (2 * span_of cfg + 1) (min_num_points cfg)"

text \<open>
  numpy raises \<^verbatim>\<open>IndexError\<close> on an index out of range and \<^verbatim>\<open>ValueError\<close> when
  an assigned sequence cannot be broadcast to the shape of its target.
\<close>

datatype py_error = IndexError | ValueError

text \<open>
  The three list comprehensions in the body of the loop over
  \<^verbatim>\<open>enumerate(generator)\<close>: the non-missing counts of the window's columns, the
  recalculation flags against the row \<open>old\<close> of the memoization array, and the row of
  results.
\<close>

definition new_num_missing_data :: "val array2 \<Rightarrow> int list" where
  "new_num_missing_data frm = map (\<lambda>i. int (count_nonnan (column frm i))) [0..<ncols frm]"

definition need_recalc :: "int list \<Rightarrow> int list \<Rightarrow> bool list" where
  "need_recalc new old = map (\<lambda>i. new ! i \<noteq> old ! i) [0..<length new]"

definition row_outliers ::
  "config \<Rightarrow> val array2 \<Rightarrow> nat \<Rightarrow> val array2 \<Rightarrow> bool list \<Rightarrow> bool list" where
  "row_outliers cfg data count frm need =
     map (\<lambda>i. if need ! i
               then is_outlier (column frm i) (rows data ! count ! i)
                      (stdev_limit cfg) (min_points_used cfg)
               else False) [0..<ncols frm]"

text \<open>
  The body of the loop, for row \<open>count\<close> and its window.  The memoization array is read
  at \<open>[count, i]\<close> for every column \<open>i\<close> of the window (\<open>IndexError\<close> when it has too few
  rows or columns) and its row \<open>count\<close> is overwritten when \<^verbatim>\<open>np.array_equal\<close> says
  it differs from the new counts.  When that row has more entries than the window has
  columns, \<^verbatim>\<open>np.array_equal\<close> is false and the assignment broadcasts a one-element
  list and raises \<open>ValueError\<close> otherwise.
\<close>

definition sweep_row ::
  "config \<Rightarrow> val array2 \<Rightarrow> nat \<Rightarrow> val array2 \<Rightarrow> int array2
     \<Rightarrow> py_error + (bool list \<times> int array2)" where
  "sweep_row cfg data count frm num_missing =
     (let new = new_num_missing_data frm
      in if nrows num_missing \<le> count then Inl IndexError
         else let old = rows num_missing ! count
         in if length old < length new then Inl IndexError
            else let res = row_outliers cfg data count frm (need_recalc new old)
            in if old = new then Inr (res, num_missing)
               else if length old = length new
               then Inr (res, Array2 (ncols num_missing) ((rows num_missing)[count := new]))
               else if length new = 1
               then Inr (res, Array2 (ncols num_missing)
                                ((rows num_missing)[count := replicate (length old) (new ! 0)]))
               else Inl ValueError)"

text \<open>
  The loop itself, over the enumerated windows, threading the result array
  (\<^verbatim>\<open>outliers[count] = row_outliers\<close>) and the memoization array; an error ends it.
\<close>

fun sweep_rows ::
  "config \<Rightarrow> val array2 \<Rightarrow> (nat \<times> val array2) list \<Rightarrow> bool array2 \<Rightarrow> int array2
     \<Rightarrow> py_error + (bool array2 \<times> int array2)" where
  "sweep_rows cfg data [] outl num_missing = Inr (outl, num_missing)"
| "sweep_rows cfg data ((count, frm) # rest) outl num_missing =
     (case sweep_row cfg data count frm num_missing of
        Inl e \<Rightarrow> Inl e
      | Inr (res, num_missing') \<Rightarrow>
          sweep_rows cfg data rest
            (Array2 (ncols outl) ((rows outl)[count := res])) num_missing')"

text \<open>
  \<^verbatim>\<open>InterquartileVarianceAlgorithm.outliers(data, generator_factory, num_missing_data_in_frame)\<close>
  returns the boolean array of this sweep and the memoization array.
\<close>

definition InterquartileVarianceAlgorithm_outliers ::
  "config \<Rightarrow> val ndarray \<Rightarrow> int array2 \<Rightarrow> py_error + (bool array2 \<times> int array2)" where
  "InterquartileVarianceAlgorithm_outliers cfg data0 num_missing =
     (let data = as_columns data0;
          outl = full (nrows data) (ncols data) False;
          frames = generator (span_of cfg) data
      in sweep_rows cfg data (zip [0..<length frames] frames) outl num_missing)"

section \<open>The orchestrator \<^verbatim>\<open>OutlierDetector.outliers\<close>\<close>

text \<open>
  The caller's array and the array the loop works on are objects in a store, addressed by
  their position, because the loop assigns into its array in place
  (\<^verbatim>\<open>data[outlier_truth_matrix] = float('nan')\<close>) and whether that array is the
  caller's depends on the branch taken before the loop.  The arrays made inside the call
  (\<^verbatim>\<open>outliers\<close>, \<^verbatim>\<open>num_missing_in_frame\<close>, every \<^verbatim>\<open>copy(data)\<close>) are
  reachable from nowhere else and are plain values.
\<close>

type_synonym store = "val ndarray list"

text \<open>\<^verbatim>\<open>np.sum(outlier_truth_matrix)\<close>: the number of true entries.\<close>

definition np_sum :: "bool array2 \<Rightarrow> nat" where
  "np_sum m = sum_list (map (\<lambda>r. length (filter (\<lambda>b. b) r)) (rows m))"

text \<open>
  \<^verbatim>\<open>outliers += outlier_truth_matrix\<close>: \<^verbatim>\<open>outliers\<close> starts as
  \<^verbatim>\<open>np.zeros(data.shape)\<close> and counts, per cell, the sweeps that flagged it; both
  arrays have the shape of \<^verbatim>\<open>data\<close>.
\<close>

definition add_mask :: "nat array2 \<Rightarrow> bool array2 \<Rightarrow> nat array2" where
  "add_mask outl m =
     Array2 (ncols outl)
       (map2 (map2 (\<lambda>x b. x + (if b then 1 else 0))) (rows outl) (rows m))"

text \<open>\<^verbatim>\<open>outliers.astype(bool)\<close>: a cell is true when its count is not zero.\<close>

definition astype_bool :: "nat array2 \<Rightarrow> bool array2" where
  "astype_bool a = Array2 (ncols a) (map (map (\<lambda>x. x \<noteq> 0)) (rows a))"

text \<open>
  \<^verbatim>\<open>data[outlier_truth_matrix] = float('nan')\<close>: every cell where the mask is true
  becomes NaN.  numpy raises \<open>IndexError\<close> when the boolean index has not the shape of the
  indexed array.
\<close>

definition mask_assign_nan :: "val ndarray \<Rightarrow> bool array2 \<Rightarrow> py_error + val ndarray" where
  "mask_assign_nan d m =
     (case d of
        A1 xs \<Rightarrow> Inl IndexError
      | A2 a \<Rightarrow>
          if shape2 a = shape2 m
          then Inr (A2 (Array2 (ncols a)
                         (map2 (map2 (\<lambda>v b. if b then None else v)) (rows a) (rows m))))
          else Inl IndexError)"

text \<open>
  The \<^verbatim>\<open>while True\<close> loop of the branch \<^verbatim>\<open>num_of_iterations is None\<close>.  \<open>d\<close> is the
  address of \<^verbatim>\<open>data\<close> in the store \<open>st\<close>; the sweep receives \<^verbatim>\<open>copy(data)\<close>, the
  value at \<open>d\<close>.  The last argument counts the sweeps made so far and is returned with the
  result and the final store; the source does not compute it.  A loop that never leaves
  has the value \<open>None\<close>.
\<close>

partial_function (option) sweeps_while ::
  "config \<Rightarrow> nat \<Rightarrow> store \<Rightarrow> nat array2 \<Rightarrow> int array2 \<Rightarrow> nat
     \<Rightarrow> (py_error + (nat array2 \<times> store \<times> nat)) option" where
  "sweeps_while cfg d st outl num_missing n =
     (case InterquartileVarianceAlgorithm_outliers cfg (st ! d) num_missing of
        Inl e \<Rightarrow> Some (Inl e)
      | Inr (otm, num_missing') \<Rightarrow>
          if np_sum otm = 0 then Some (Inr (add_mask outl otm, st, Suc n))
          else (case mask_assign_nan (st ! d) otm of
                  Inl e \<Rightarrow> Some (Inl e)
                | Inr a \<Rightarrow>
                    sweeps_while cfg d (st[d := a]) (add_mask outl otm) num_missing' (Suc n)))"

text \<open>
  The \<^verbatim>\<open>for _ in range(num_of_iterations)\<close> loop of the other branch, with the number
  of iterations still to run.
\<close>

fun sweeps_for ::
  "config \<Rightarrow> nat \<Rightarrow> store \<Rightarrow> nat array2 \<Rightarrow> int array2 \<Rightarrow> nat \<Rightarrow> nat
     \<Rightarrow> py_error + (nat array2 \<times> store \<times> nat)" where
  "sweeps_for cfg d st outl num_missing 0 n = Inr (outl, st, n)"
| "sweeps_for cfg d st outl num_missing (Suc k) n =
     (case InterquartileVarianceAlgorithm_outliers cfg (st ! d) num_missing of
        Inl e \<Rightarrow> Inl e
      | Inr (otm, num_missing') \<Rightarrow>
          if np_sum otm = 0 then Inr (add_mask outl otm, st, Suc n)
          else (case mask_assign_nan (st ! d) otm of
                  Inl e \<Rightarrow> Inl e
                | Inr a \<Rightarrow>
                    sweeps_for cfg d (st[d := a]) (add_mask outl otm) num_missing' k (Suc n)))"

text \<open>
  The rebinding of \<^verbatim>\<open>data\<close> before the loops: for a one-dimensional argument
  \<^verbatim>\<open>np.reshape(np.array(data), (-1, 1))\<close> is a new object holding a copy, and
  \<^verbatim>\<open>data\<close> names it from then on; a two-dimensional argument is kept, and \<^verbatim>\<open>data\<close>
  goes on naming the caller's object.
\<close>

definition rebind_data :: "store \<Rightarrow> nat \<Rightarrow> store \<times> nat" where
  "rebind_data st d =
     (case st ! d of
        A1 xs \<Rightarrow> (st @ [A2 (as_columns (A1 xs))], length st)
      | A2 a \<Rightarrow> (st, d))"

text \<open>
  \<^verbatim>\<open>OutlierDetector.outliers(data, num_of_iterations)\<close>, called with the address \<open>d0\<close> of
  the caller's array in the store \<open>st0\<close>.  It yields the returned boolean array, the store
  after the call and the number of sweeps made.  \<^verbatim>\<open>range\<close> of a number that is not
  positive is empty.
\<close>

definition finish :: "nat array2 \<times> store \<times> nat \<Rightarrow> bool array2 \<times> store \<times> nat" where
  "finish res = (case res of (outl, st, n) \<Rightarrow> (astype_bool outl, st, n))"

definition OutlierDetector_outliers ::
  "config \<Rightarrow> store \<Rightarrow> nat \<Rightarrow> int option
     \<Rightarrow> (py_error + (bool array2 \<times> store \<times> nat)) option" where
  "OutlierDetector_outliers cfg st0 d0 num_of_iterations =
     (case rebind_data st0 d0 of (st, d) \<Rightarrow>
        let data = as_columns (st ! d);
            outl = full (nrows data) (ncols data) 0;
            num_missing_in_frame = full (nrows data) (ncols data) 0
        in case num_of_iterations of
             None \<Rightarrow>
               map_option (map_sum id finish) (sweeps_while cfg d st outl num_missing_in_frame 0)
           | Some k \<Rightarrow>
               Some (map_sum id finish (sweeps_for cfg d st outl num_missing_in_frame (nat k) 0)))"

text \<open>
  The number of non-missing cells of an array; the sweeps of the \<^verbatim>\<open>while\<close> loop are
  counted against it.
\<close>

definition nonnan_total :: "val array2 \<Rightarrow> nat" where
  "nonnan_total a = sum_list (map count_nonnan (rows a))"

section \<open>Curve segmentation and flagging: \<^verbatim>\<open>FUC_flagging.py\<close>\<close>

text \<open>
  A time series is a list of rows \<open>(timestamp, value)\<close>.  Timestamps and the breakpoint
  are integers (ticks of a clock); values are floats as above.
\<close>

type_synonym series = "(int \<times> val) list"

text \<open>
  The \<^verbatim>\<open>while j < FUC_data.shape[0]\<close> loop of \<^verbatim>\<open>FUC_curve_generator\<close> with its
  lagging index \<open>i\<close> and leading index \<open>j\<close>, followed by the final
  \<^verbatim>\<open>yield i, j - 1\<close>; the result is the sequence of yielded pairs.
\<close>

function curve_loop :: "int list \<Rightarrow> int \<Rightarrow> bool \<Rightarrow> nat \<Rightarrow> nat \<Rightarrow> (nat \<times> nat) list" where
  "curve_loop FUC_data min_time_breakpoint ignoreFirst i j =
     (if j < length FUC_data
      then if \<bar>FUC_data ! j - FUC_data ! (j - 1)\<bar> > min_time_breakpoint
           then if \<not> ignoreFirst
                then (i, j - 1) # curve_loop FUC_data min_time_breakpoint ignoreFirst j (j + 1)
                else curve_loop FUC_data min_time_breakpoint False j (j + 1)
           else curve_loop FUC_data min_time_breakpoint ignoreFirst i (j + 1)
      else [(i, j - 1)])"
  by pat_completeness auto
termination
  by (relation "measure (\<lambda>(FUC_data, bp, ign, i, j). length FUC_data - j)") auto

declare curve_loop.simps [simp del]

definition FUC_curve_generator :: "int list \<Rightarrow> int \<Rightarrow> bool \<Rightarrow> (nat \<times> nat) list" where
  "FUC_curve_generator FUC_data min_time_breakpoint ignoreFirst =
     curve_loop FUC_data min_time_breakpoint ignoreFirst 0 1"

text \<open>
  \<^verbatim>\<open>np.mean\<close> and \<^verbatim>\<open>np.std\<close> (population standard deviation): NaN for an empty
  array or one that holds a NaN.
\<close>

definition np_mean :: "val list \<Rightarrow> val" where
  "np_mean xs =
     (if xs = [] \<or> (\<exists>v \<in> set xs. isnan v) then None
      else Some (sum_list (map the xs) / real (length xs)))"

definition np_std :: "val list \<Rightarrow> val" where
  "np_std xs =
     (case np_mean xs of
        None \<Rightarrow> None
      | Some m \<Rightarrow> Some (sqrt (sum_list (map (\<lambda>v. (the v - m)\<^sup>2) xs) / real (length xs))))"

text \<open>
  \<^verbatim>\<open>FUC_tests\<close>: the three tests on one curve; \<open>True\<close> is a bad curve.  \<open>min_points\<close>
  is the parameter \<^verbatim>\<open>min_num_points\<close> of the source.
\<close>

definition FUC_tests :: "val list \<Rightarrow> real \<Rightarrow> int \<Rightarrow> real \<Rightarrow> real \<Rightarrow> bool" where
  "FUC_tests FUC_curve span_co2 min_points max_diff_from_span max_st_dev =
     (if int (length FUC_curve) < min_points then True
      else let last_FUC_measurements = py_slice (Some (- 8)) (Some (- 3)) FUC_curve
      in if (case np_mean last_FUC_measurements of
               None \<Rightarrow> False
             | Some m \<Rightarrow> \<bar>span_co2 - m\<bar> > max_diff_from_span) then True
         else if fless (Some max_st_dev) (np_std last_FUC_measurements) then True
         else False)"

text \<open>
  The body of the loop of \<^verbatim>\<open>qc_FUC_timeseries\<close> over the yielded pairs, appending to
  \<^verbatim>\<open>output\<close>.  \<^verbatim>\<open>FUC_time_series[curve_start, 0]\<close> raises \<open>IndexError\<close> for a row
  that does not exist; the slice \<^verbatim>\<open>FUC_time_series[curve_start:curve_end, 1]\<close> never
  raises.
\<close>

fun qc_loop ::
  "series \<Rightarrow> real \<Rightarrow> int \<Rightarrow> real \<Rightarrow> real \<Rightarrow> (nat \<times> nat) list \<Rightarrow> (int \<times> bool) list
     \<Rightarrow> py_error + (int \<times> bool) list" where
  "qc_loop FUC_time_series span_co2 min_points max_diff_from_span max_st_dev [] output =
     Inr output"
| "qc_loop FUC_time_series span_co2 min_points max_diff_from_span max_st_dev
     ((curve_start, curve_end0) # rest) output =
     (let curve_end = (if int curve_end0 - int curve_start = 0 then curve_end0 + 1
                       else curve_end0)
      in if length FUC_time_series \<le> curve_start then Inl IndexError
         else let timestamp = fst (FUC_time_series ! curve_start);
                  flag = FUC_tests
                           (py_slice (Some (int curve_start)) (Some (int curve_end))
                              (map snd FUC_time_series))
                           span_co2 min_points max_diff_from_span max_st_dev
         in qc_loop FUC_time_series span_co2 min_points max_diff_from_span max_st_dev
              rest (output @ [(timestamp, flag)]))"

definition qc_FUC_timeseries ::
  "series \<Rightarrow> int \<Rightarrow> real \<Rightarrow> int \<Rightarrow> real \<Rightarrow> real \<Rightarrow> bool \<Rightarrow> py_error + (int \<times> bool) list" where
  "qc_FUC_timeseries FUC_time_series min_time_breakpoint span_co2 min_points
     max_diff_from_span max_st_dev ignoreFirst =
     qc_loop FUC_time_series span_co2 min_points max_diff_from_span max_st_dev
       (FUC_curve_generator (map fst FUC_time_series) min_time_breakpoint ignoreFirst) []"

section \<open>Properties of the robust window test\<close>

lemma cut_off_nan_if_few:
  "int (count_nonnan col) < m \<Longrightarrow> cut_off col k m = None"
  by (simp add: cut_off_def iqr_stdev_def q75_def q25_def fmul_def)

lemma cut_off_Some_median:
  assumes "cut_off col k m = Some c"
  shows "\<exists>med. nanmedian col = Some med"
proof -
  from assms obtain a where "q75 col m = Some a"
    by (auto simp: cut_off_def iqr_stdev_def fmul_def split: option.splits)
  then have "nanpercentile col 75 = Some a"
    by (simp add: q75_def split: if_splits)
  then have "nonnan col \<noteq> []"
    by (auto simp: nanpercentile_def Let_def split: if_splits)
  then have "length (sort (nonnan col)) \<noteq> 0"
    by simp
  then show ?thesis
    unfolding nanmedian_def Let_def by (simp only: if_False split: if_split) blast
qed

text \<open>
  C1 (as stated, refuted): a window with one non-missing value and a threshold of three
  has an undefined cutoff, and the test answers \<open>False\<close>, not \<open>True\<close>.
\<close>

theorem is_outlier_undefined_counterexample:
  "int (count_nonnan [Some 1, None, None]) < 3
   \<and> isnan (cut_off [Some 1, None, None] 5 3)
   \<and> is_outlier [Some 1, None, None] (Some 1) 5 3 = False"
  by (simp add: is_outlier_def cut_off_def iqr_stdev_def q75_def q25_def fmul_def
      count_nonnan_def isnan_def)

text \<open>
  C1 (amended): whenever the window has fewer than \<open>m\<close> non-missing values, or the cutoff
  is undefined for any other reason, or the tested value is missing, \<open>is_outlier\<close>
  returns \<open>False\<close> (not an outlier), as the docstring of the source says (``not enough
  data results in a False output'').
\<close>

theorem is_outlier_undefined_false:
  assumes "int (count_nonnan col) < m \<or> isnan (cut_off col k m) \<or> isnan v"
  shows "is_outlier col v k m = False"
proof -
  from assms have "isnan (cut_off col k m) \<or> isnan v"
    using cut_off_nan_if_few [of col m k] by (auto simp: isnan_def)
  then show ?thesis
    by (auto simp: is_outlier_def Let_def)
qed

theorem is_outlier_undefined_false_witness:
  "int (count_nonnan [Some 1, None, None]) < 3
   \<and> is_outlier [Some 1, None, None] (Some 1) 5 3 = False
   \<and> is_outlier [Some 1, Some 2, Some 3] None 5 3 = False"
proof -
  have few: "int (count_nonnan [Some 1, None, None]) < 3"
    by (simp add: count_nonnan_def isnan_def)
  have "is_outlier [Some 1, None, None] (Some 1) 5 3 = False"
    using is_outlier_undefined_false [of "[Some 1, None, None]" 3 5 "Some 1"] few
    by blast
  moreover have "is_outlier [Some 1, Some 2, Some 3] None 5 3 = False"
    using is_outlier_undefined_false [of "[Some 1, Some 2, Some 3]" 3 5 None]
    by (simp add: isnan_def)
  ultimately show ?thesis using few by blast
qed

text \<open>
  C6: when the cutoff \<open>c\<close> is defined (then so is the median \<open>med\<close> of the window), a
  tested value equal to \<open>med - c\<close> or to \<open>med + c\<close> is an outlier, and a defined value
  \<open>v\<close> is not an outlier exactly when \<open>med - c < v < med + c\<close>, both inequalities strict.
\<close>

theorem is_outlier_strict_band:
  assumes "cut_off col k m = Some c"
  shows "\<exists>med. nanmedian col = Some med
           \<and> is_outlier col (Some (med - c)) k m
           \<and> is_outlier col (Some (med + c)) k m
           \<and> (\<forall>v. is_outlier col (Some v) k m = False \<longleftrightarrow> med - c < v \<and> v < med + c)"
proof -
  from cut_off_Some_median [OF assms] obtain med where med: "nanmedian col = Some med"
    by blast
  have "is_outlier col (Some v) k m = False \<longleftrightarrow> med - c < v \<and> v < med + c" for v
    using assms med
    by (simp add: is_outlier_def Let_def isnan_def fless_def fsub_def fadd_def)
  then show ?thesis
    using med by auto
qed

theorem is_outlier_strict_band_witness:
  "cut_off [Some 0, Some 1, Some 2, Some 3, Some 4] 1.35 5 = Some 2
   \<and> nanmedian [Some 0, Some 1, Some 2, Some 3, Some 4] = Some 2
   \<and> is_outlier [Some 0, Some 1, Some 2, Some 3, Some 4] (Some 0) 1.35 5
   \<and> is_outlier [Some 0, Some 1, Some 2, Some 3, Some 4] (Some 4) 1.35 5
   \<and> is_outlier [Some 0, Some 1, Some 2, Some 3, Some 4] (Some 3) 1.35 5 = False"
proof -
  let ?col = "[Some 0, Some 1, Some 2, Some 3, Some 4] :: val list"
  have c: "cut_off ?col 1.35 5 = Some 2"
    by (simp add: cut_off_def iqr_stdev_def q25_def q75_def count_nonnan_def isnan_def
        nanpercentile_def nonnan_def percentile_def fmul_def Let_def)
  have m: "nanmedian ?col = Some 2"
    by (simp add: nanmedian_def nonnan_def isnan_def Let_def)
  from is_outlier_strict_band [OF c] m
  have "is_outlier ?col (Some (2 - 2)) 1.35 5"
    and "is_outlier ?col (Some (2 + 2)) 1.35 5"
    and "is_outlier ?col (Some 3) 1.35 5 = False \<longleftrightarrow> (2 - 2 < (3::real) \<and> (3::real) < 2 + 2)"
    by auto
  then show ?thesis using c m by simp
qed


section \<open>Properties of the window generator\<close>

text \<open>Unfolding sets for evaluating the definitions on concrete arrays.\<close>

lemmas array_eval = nrows_def rect_def shape2_def full_def column_def slice_bound_def py_slice_def
  slice_rows_def frame_at_def generator_def

lemmas outlier_eval = isnan_def fadd_def fsub_def fmul_def fless_def count_nonnan_def nonnan_def
  percentile_def nanpercentile_def nanmedian_def q25_def q75_def iqr_stdev_def cut_off_def
  is_outlier_def

lemmas sweep_eval = span_of_def min_points_used_def new_num_missing_data_def need_recalc_def
  row_outliers_def sweep_row_def InterquartileVarianceAlgorithm_outliers_def

lemma take_drop_nth:
  "a + k \<le> length xs \<Longrightarrow> take k (drop a xs) = map (\<lambda>j. xs ! j) [a..<a + k]"
  by (rule nth_equalityI) (auto simp: nth_map_upt)

lemma length_generator: "length (generator f data) = nrows data"
  by (simp add: generator_def)

lemma ncols_frame_at: "ncols (frame_at f data idx) = ncols data"
  by (simp add: frame_at_def slice_rows_def)

lemma frame_at_centered:
  assumes "h \<le> i" "i + h < nrows data"
  shows "rows (frame_at (int h) data (int i)) = map (\<lambda>j. rows data ! j) [i - h..<i + h + 1]"
proof -
  have "rows (frame_at (int h) data (int i)) = take (2 * h + 1) (drop (i - h) (rows data))"
    using assms
    by (simp add: frame_at_def slice_rows_def py_slice_def slice_bound_def nrows_def Let_def
        nat_diff_distrib' nat_add_distrib nat_mult_distrib)
  also have "\<dots> = map (\<lambda>j. rows data ! j) [i - h..<(i - h) + (2 * h + 1)]"
    using assms by (intro take_drop_nth) (simp add: nrows_def)
  also have "(i - h) + (2 * h + 1) = i + h + 1"
    using assms by simp
  finally show ?thesis .
qed

lemma frame_at_leading:
  assumes "i < h" "2 * h + 1 \<le> nrows data"
  shows "rows (frame_at (int h) data (int i)) = map (\<lambda>j. rows data ! j) [0..<2 * h + 1]"
proof -
  have "rows (frame_at (int h) data (int i)) = take (2 * h + 1) (drop 0 (rows data))"
    using assms
    by (simp add: frame_at_def slice_rows_def py_slice_def slice_bound_def nrows_def Let_def
        nat_add_distrib nat_mult_distrib)
  also have "\<dots> = map (\<lambda>j. rows data ! j) [0..<0 + (2 * h + 1)]"
    using assms by (intro take_drop_nth) (simp add: nrows_def)
  finally show ?thesis by (simp only: add_0)
qed

lemma frame_at_trailing:
  assumes "nrows data - h \<le> i" "i < nrows data" "2 * h + 1 \<le> nrows data"
  shows "rows (frame_at (int h) data (int i))
           = map (\<lambda>j. rows data ! j) [nrows data - (2 * h + 1)..<nrows data]"
proof -
  let ?n = "length (rows data)"
  have b: "slice_bound (int ?n) (- 2 * int h - 1) = int (?n - (2 * h + 1))"
    using assms by (simp add: slice_bound_def nrows_def of_nat_diff)
  have "\<not> (int h \<le> int i \<and> int i < int (nrows data) - int h)" "\<not> int i < int h"
    using assms by linarith+
  then have "rows (frame_at (int h) data (int i))
          = py_slice (Some (- 2 * int h - 1)) None (rows data)"
    by (simp add: frame_at_def slice_rows_def)
  also have "\<dots> = take (nat (int ?n - int (?n - (2 * h + 1))))
                      (drop (nat (int (?n - (2 * h + 1)))) (rows data))"
    unfolding py_slice_def Let_def option.case b ..
  also have "nat (int (?n - (2 * h + 1))) = ?n - (2 * h + 1)"
    by (rule nat_int)
  also have "nat (int ?n - int (?n - (2 * h + 1))) = 2 * h + 1"
    using assms unfolding nrows_def by linarith
  finally have "rows (frame_at (int h) data (int i))
          = take (2 * h + 1) (drop (?n - (2 * h + 1)) (rows data))" .
  also have "\<dots> = map (\<lambda>j. rows data ! j)
                      [?n - (2 * h + 1)..<(?n - (2 * h + 1)) + (2 * h + 1)]"
    using assms by (intro take_drop_nth) (simp add: nrows_def)
  also have "(?n - (2 * h + 1)) + (2 * h + 1) = ?n"
    using assms by (simp add: nrows_def)
  finally show ?thesis by (simp only: nrows_def)
qed

lemma frame_at_short:
  assumes "nrows data < 2 * h + 1"
  shows "frame_at (int h) data (int i) = data"
proof -
  have "rows (frame_at (int h) data (int i)) = rows data"
    using assms
    by (auto simp add: frame_at_def slice_rows_def py_slice_def slice_bound_def nrows_def Let_def
        max_def min_def)
  then show ?thesis
    by (simp add: array2.expand ncols_frame_at)
qed

text \<open>
  C5: for a matrix with at least \<open>2h + 1\<close> rows the generator yields one window per row
  index \<open>i\<close>; every window has \<open>2h + 1\<close> rows and all the columns; it consists of the
  rows \<open>i - h, \<dots>, i + h\<close> when \<open>h \<le> i < rows - h\<close>, of the first \<open>2h + 1\<close> rows when
  \<open>i < h\<close>, and of the last \<open>2h + 1\<close> rows when \<open>i \<ge> rows - h\<close>.
\<close>

theorem generator_windows:
  assumes "2 * h + 1 \<le> nrows data"
  shows "length (generator (int h) data) = nrows data \<and>
    (\<forall>i < nrows data.
       nrows (generator (int h) data ! i) = 2 * h + 1 \<and>
       ncols (generator (int h) data ! i) = ncols data \<and>
       (h \<le> i \<and> i < nrows data - h \<longrightarrow>
          rows (generator (int h) data ! i) = map (\<lambda>j. rows data ! j) [i - h..<i + h + 1]) \<and>
       (i < h \<longrightarrow>
          rows (generator (int h) data ! i) = map (\<lambda>j. rows data ! j) [0..<2 * h + 1]) \<and>
       (nrows data - h \<le> i \<longrightarrow>
          rows (generator (int h) data ! i)
            = map (\<lambda>j. rows data ! j) [nrows data - (2 * h + 1)..<nrows data]))"
proof (intro conjI allI impI)
  show "length (generator (int h) data) = nrows data"
    by (rule length_generator)
next
  fix i assume i: "i < nrows data"
  then have g: "generator (int h) data ! i = frame_at (int h) data (int i)"
    by (simp add: generator_def)
  show "ncols (generator (int h) data ! i) = ncols data"
    by (simp add: g ncols_frame_at)
  {
    assume "h \<le> i \<and> i < nrows data - h"
    then have "h \<le> i" "i + h < nrows data" by linarith+
    then show "rows (generator (int h) data ! i) = map (\<lambda>j. rows data ! j) [i - h..<i + h + 1]"
      using frame_at_centered [of h i data] by (simp add: g del: upt_Suc)
  } note centered = this
  {
    assume "i < h"
    then show "rows (generator (int h) data ! i) = map (\<lambda>j. rows data ! j) [0..<2 * h + 1]"
      using frame_at_leading [of i h data] assms by (simp add: g del: upt_Suc)
  } note leading = this
  {
    assume "nrows data - h \<le> i"
    then show "rows (generator (int h) data ! i)
            = map (\<lambda>j. rows data ! j) [nrows data - (2 * h + 1)..<nrows data]"
      using frame_at_trailing [of data h i] assms i by (simp add: g del: upt_Suc)
  } note trailing = this
  consider "h \<le> i \<and> i < nrows data - h" | "i < h" | "nrows data - h \<le> i"
    by linarith
  then show "nrows (generator (int h) data ! i) = 2 * h + 1"
  proof cases
    case 1 then show ?thesis using centered by (simp add: nrows_def del: upt_Suc)
  next
    case 2 then show ?thesis using leading by (simp add: nrows_def del: upt_Suc)
  next
    case 3 then show ?thesis using trailing assms
      by (simp add: nrows_def [of "generator (int h) data ! i"] del: upt_Suc)
  qed
qed

theorem generator_windows_witness:
  "2 * 1 + 1 \<le> nrows (Array2 1 [[Some 0], [Some 1], [Some 2], [Some 3], [None :: val]])
   \<and> rows (generator 1 (Array2 1 [[Some 0], [Some 1], [Some 2], [Some 3], [None :: val]]) ! 0)
       = [[Some 0], [Some 1], [Some 2]]
   \<and> rows (generator 1 (Array2 1 [[Some 0], [Some 1], [Some 2], [Some 3], [None :: val]]) ! 2)
       = [[Some 1], [Some 2], [Some 3]]
   \<and> rows (generator 1 (Array2 1 [[Some 0], [Some 1], [Some 2], [Some 3], [None :: val]]) ! 4)
       = [[Some 2], [Some 3], [None]]"
proof -
  let ?d = "Array2 1 [[Some 0], [Some 1], [Some 2], [Some 3], [None :: val]]"
  have h: "2 * 1 + 1 \<le> nrows ?d"
    by (simp add: nrows_def)
  note w = generator_windows [OF h, THEN conjunct2, rule_format]
  have "rows (generator 1 ?d ! 0) = map (\<lambda>j. rows ?d ! j) [0..<2 * 1 + 1]"
    using w [of 0] by (simp add: nrows_def)
  moreover have "rows (generator 1 ?d ! 2) = map (\<lambda>j. rows ?d ! j) [2 - 1..<2 + 1 + 1]"
    using w [of 2] by (simp add: nrows_def)
  moreover have "rows (generator 1 ?d ! 4) = map (\<lambda>j. rows ?d ! j) [nrows ?d - (2 * 1 + 1)..<nrows ?d]"
    using w [of 4] by (simp add: nrows_def)
  ultimately show ?thesis
    using h by (simp add: nrows_def upt_rec [of _ "numeral _"] upt_rec[of _ "Suc _"])
qed

text \<open>
  C9 (as stated, refuted): on a matrix of two rows with half-width 1 (fewer than
  \<open>2h + 1 = 3\<close> rows) the generator raises nothing and yields two windows, each the whole
  two-row matrix, and the sweep over that matrix returns normally.
\<close>

theorem generator_short_counterexample:
  "nrows (Array2 1 [[Some 1], [Some (2::real)]]) < 2 * 1 + 1
   \<and> generator 1 (Array2 1 [[Some 1], [Some (2::real)]])
       = [Array2 1 [[Some 1], [Some 2]], Array2 1 [[Some 1], [Some 2]]]
   \<and> InterquartileVarianceAlgorithm_outliers \<lparr>frame = 1, stdev_limit = 5, min_num_points = 20\<rparr>
         (A2 (Array2 1 [[Some 1], [Some 2]])) (full 2 1 0)
       = Inr (Array2 1 [[False], [False]], Array2 1 [[2], [2]])"
  by (simp add: array_eval outlier_eval sweep_eval Let_def eval_nat_numeral)

text \<open>
  C9 (amended): for a matrix with fewer than \<open>2h + 1\<close> rows the generator raises no error;
  it yields one window per row, and every window is the whole matrix (all its rows, fewer
  than \<open>2h + 1\<close>).
\<close>

theorem generator_short:
  assumes "nrows data < 2 * h + 1"
  shows "generator (int h) data = replicate (nrows data) data"
  by (rule nth_equalityI) (simp_all add: generator_def frame_at_short [OF assms])


theorem generator_short_witness:
  "nrows (Array2 1 [[Some 1], [Some (2::real)]]) < 2 * 1 + 1
   \<and> generator 1 (Array2 1 [[Some 1], [Some (2::real)]])
       = [Array2 1 [[Some 1], [Some 2]], Array2 1 [[Some 1], [Some 2]]]"
proof -
  have h: "nrows (Array2 1 [[Some 1], [Some (2::real)]]) < 2 * 1 + 1"
    by (simp add: nrows_def)
  show ?thesis
    using generator_short [OF h] h by (simp add: nrows_def)
qed

section \<open>Properties of one sweep\<close>

lemma rect_nth: "rect a \<Longrightarrow> r < nrows a \<Longrightarrow> length (rows a ! r) = ncols a"
  by (simp add: rect_def nrows_def list_all_length)

lemma rect_iff: "rect a \<longleftrightarrow> (\<forall>r < nrows a. length (rows a ! r) = ncols a)"
  by (simp add: rect_def nrows_def list_all_length)

lemma length_new_num_missing_data [simp]: "length (new_num_missing_data frm) = ncols frm"
  by (simp add: new_num_missing_data_def)

lemma length_row_outliers [simp]: "length (row_outliers cfg data count frm need) = ncols frm"
  by (simp add: row_outliers_def)

text \<open>The row step when the memoization row has as many entries as the window has columns.\<close>

lemma sweep_row_ok:
  assumes "count < nrows nm" and "length (rows nm ! count) = ncols frm"
  shows "sweep_row cfg data count frm nm =
           Inr (row_outliers cfg data count frm
                  (need_recalc (new_num_missing_data frm) (rows nm ! count)),
                Array2 (ncols nm) ((rows nm)[count := new_num_missing_data frm]))"
proof (cases "rows nm ! count = new_num_missing_data frm")
  case True
  then have "(rows nm)[count := new_num_missing_data frm] = rows nm"
    by (metis list_update_id)
  then show ?thesis
    using assms True by (simp add: sweep_row_def Let_def)
next
  case False
  then show ?thesis
    using assms by (simp add: sweep_row_def Let_def)
qed

lemma sweep_rows_ok:
  assumes "\<forall>j < length fs. ncols (fs ! j) = c"
    and "a + length fs \<le> nrows nm"
    and "a + length fs \<le> nrows outl"
    and "\<forall>r < nrows nm. length (rows nm ! r) = c"
  shows "\<exists>m nm'. sweep_rows cfg data (zip [a..<a + length fs] fs) outl nm = Inr (m, nm')
           \<and> ncols m = ncols outl \<and> nrows m = nrows outl
           \<and> ncols nm' = ncols nm \<and> nrows nm' = nrows nm
           \<and> (\<forall>r < nrows outl. rows m ! r =
                 (if a \<le> r \<and> r < a + length fs
                  then row_outliers cfg data r (fs ! (r - a))
                         (need_recalc (new_num_missing_data (fs ! (r - a))) (rows nm ! r))
                  else rows outl ! r))
           \<and> (\<forall>r < nrows nm. rows nm' ! r =
                 (if a \<le> r \<and> r < a + length fs
                  then new_num_missing_data (fs ! (r - a))
                  else rows nm ! r))"
  using assms
proof (induction fs arbitrary: a outl nm)
  case Nil
  then show ?case by auto
next
  case (Cons f fs)
  let ?new = "new_num_missing_data f"
  let ?res = "row_outliers cfg data a f (need_recalc ?new (rows nm ! a))"
  let ?nm1 = "Array2 (ncols nm) ((rows nm)[a := ?new])"
  let ?outl1 = "Array2 (ncols outl) ((rows outl)[a := ?res])"
  have fc: "ncols f = c"
    using Cons.prems(1) by fastforce
  have a_lt: "a < nrows nm" "a < nrows outl"
    using Cons.prems(2,3) by simp_all
  have row: "sweep_row cfg data a f nm = Inr (?res, ?nm1)"
    using a_lt Cons.prems(4) fc by (intro sweep_row_ok) simp_all
  have z: "zip [a..<a + length (f # fs)] (f # fs) = (a, f) # zip [Suc a..<Suc a + length fs] fs"
  proof -
    have "[a..<a + length (f # fs)] = a # [Suc a..<Suc a + length fs]"
      by (simp add: upt_conv_Cons del: upt_Suc)
    then show ?thesis by simp
  qed
  have step: "sweep_rows cfg data (zip [a..<a + length (f # fs)] (f # fs)) outl nm
                = sweep_rows cfg data (zip [Suc a..<Suc a + length fs] fs) ?outl1 ?nm1"
    by (simp only: z sweep_rows.simps row sum.case prod.case)
  have p1: "\<forall>j < length fs. ncols (fs ! j) = c"
    using Cons.prems(1) by fastforce
  have p2: "Suc a + length fs \<le> nrows ?nm1" "Suc a + length fs \<le> nrows ?outl1"
    using Cons.prems(2,3) by (simp_all add: nrows_def)
  have p4: "\<forall>r < nrows ?nm1. length (rows ?nm1 ! r) = c"
    using Cons.prems(4) fc a_lt by (auto simp add: nrows_def nth_list_update)
  from Cons.IH [OF p1 p2 p4, of ] obtain m nm' where
    res: "sweep_rows cfg data (zip [Suc a..<Suc a + length fs] fs) ?outl1 ?nm1 = Inr (m, nm')"
    and sh: "ncols m = ncols ?outl1" "nrows m = nrows ?outl1"
            "ncols nm' = ncols ?nm1" "nrows nm' = nrows ?nm1"
    and mr: "\<forall>r < nrows ?outl1. rows m ! r =
                 (if Suc a \<le> r \<and> r < Suc a + length fs
                  then row_outliers cfg data r (fs ! (r - Suc a))
                         (need_recalc (new_num_missing_data (fs ! (r - Suc a))) (rows ?nm1 ! r))
                  else rows ?outl1 ! r)"
    and nr: "\<forall>r < nrows ?nm1. rows nm' ! r =
                 (if Suc a \<le> r \<and> r < Suc a + length fs
                  then new_num_missing_data (fs ! (r - Suc a))
                  else rows ?nm1 ! r)"
    by blast
  have m_rows: "rows m ! r =
                 (if a \<le> r \<and> r < a + length (f # fs)
                  then row_outliers cfg data r ((f # fs) ! (r - a))
                         (need_recalc (new_num_missing_data ((f # fs) ! (r - a))) (rows nm ! r))
                  else rows outl ! r)" if "r < nrows outl" for r
  proof -
    consider "r < a" | "r = a" | "a < r"
      by linarith
    then show ?thesis
    proof cases
      case 1
      then show ?thesis using mr that by (simp add: nrows_def)
    next
      case 2
      then show ?thesis using mr that by (simp add: nrows_def)
    next
      case 3
      then have "(f # fs) ! (r - a) = fs ! (r - Suc a)"
        by (simp add: nth_Cons')
      then show ?thesis using mr that 3 by (auto simp add: nrows_def)
    qed
  qed
  have nm_rows: "rows nm' ! r =
                 (if a \<le> r \<and> r < a + length (f # fs)
                  then new_num_missing_data ((f # fs) ! (r - a))
                  else rows nm ! r)" if "r < nrows nm" for r
  proof -
    consider "r < a" | "r = a" | "a < r"
      by linarith
    then show ?thesis
    proof cases
      case 1
      then show ?thesis using nr that by (simp add: nrows_def)
    next
      case 2
      then show ?thesis using nr that by (simp add: nrows_def)
    next
      case 3
      then have "(f # fs) ! (r - a) = fs ! (r - Suc a)"
        by (simp add: nth_Cons')
      then show ?thesis using nr that 3 by (auto simp add: nrows_def)
    qed
  qed
  show ?case
    using step res sh m_rows nm_rows by (simp add: nrows_def)
qed

lemma ncols_generator: "j < nrows data \<Longrightarrow> ncols (generator f data ! j) = ncols data"
  by (simp add: generator_def ncols_frame_at)

lemma rect_as_columns_A1: "rect (as_columns (A1 xs))"
  by (simp add: rect_def list_all_iff)

text \<open>
  One sweep with a memoization array of the data's shape: it returns normally, both
  results have the data's shape, and their rows are those of the loop body.
\<close>

lemma sweep_ok:
  fixes data :: "val array2"
  assumes "rect nm" and "nrows nm = nrows data" and "ncols nm = ncols data"
    and "as_columns data0 = data"
  shows "\<exists>m nm'. InterquartileVarianceAlgorithm_outliers cfg data0 nm = Inr (m, nm')
           \<and> ncols m = ncols data \<and> nrows m = nrows data \<and> rect m
           \<and> ncols nm' = ncols data \<and> nrows nm' = nrows data \<and> rect nm'
           \<and> (\<forall>r < nrows data. rows m ! r =
                  row_outliers cfg data r (generator (span_of cfg) data ! r)
                    (need_recalc (new_num_missing_data (generator (span_of cfg) data ! r))
                       (rows nm ! r)))
           \<and> (\<forall>r < nrows data. rows nm' ! r =
                  new_num_missing_data (generator (span_of cfg) data ! r))"
proof -
  let ?fs = "generator (span_of cfg) data"
  let ?outl = "full (nrows data) (ncols data) False"
  have len: "length ?fs = nrows data"
    by (rule length_generator)
  have a1: "\<forall>j < length ?fs. ncols (?fs ! j) = ncols data"
    by (simp add: len ncols_generator)
  have a2: "0 + length ?fs \<le> nrows nm" "0 + length ?fs \<le> nrows ?outl"
    using assms(2) by (simp_all add: len nrows_def full_def)
  have a4: "\<forall>r < nrows nm. length (rows nm ! r) = ncols data"
    using assms(1,3) by (simp add: rect_iff)
  from sweep_rows_ok [OF a1 a2 a4, of cfg data] obtain m nm' where
    res: "sweep_rows cfg data (zip [0..<0 + length ?fs] ?fs) ?outl nm = Inr (m, nm')"
    and sh: "ncols m = ncols ?outl" "nrows m = nrows ?outl"
            "ncols nm' = ncols nm" "nrows nm' = nrows nm"
    and mr: "\<forall>r < nrows ?outl. rows m ! r =
                 (if 0 \<le> r \<and> r < 0 + length ?fs
                  then row_outliers cfg data r (?fs ! (r - 0))
                         (need_recalc (new_num_missing_data (?fs ! (r - 0))) (rows nm ! r))
                  else rows ?outl ! r)"
    and nr: "\<forall>r < nrows nm. rows nm' ! r =
                 (if 0 \<le> r \<and> r < 0 + length ?fs
                  then new_num_missing_data (?fs ! (r - 0))
                  else rows nm ! r)"
    by blast
  have no: "nrows ?outl = nrows data" "ncols ?outl = ncols data"
    by (simp_all add: nrows_def full_def)
  have m_rows: "\<forall>r < nrows data. rows m ! r =
                  row_outliers cfg data r (?fs ! r)
                    (need_recalc (new_num_missing_data (?fs ! r)) (rows nm ! r))"
    using mr by (simp add: no len)
  have nm_rows: "\<forall>r < nrows data. rows nm' ! r = new_num_missing_data (?fs ! r)"
    using nr assms(2) by (simp add: len)
  have "rect m"
    using m_rows sh by (simp add: rect_iff no ncols_generator)
  moreover have "rect nm'"
    using nm_rows sh assms(2,3) by (simp add: rect_iff ncols_generator)
  moreover have "InterquartileVarianceAlgorithm_outliers cfg data0 nm = Inr (m, nm')"
    using res assms(4) by (simp add: InterquartileVarianceAlgorithm_outliers_def Let_def)
  ultimately show ?thesis
    using sh m_rows nm_rows assms(2,3) by (simp add: no)
qed

lemma nth_row_outliers:
  "c < ncols frm \<Longrightarrow> length old = ncols frm \<Longrightarrow>
   row_outliers cfg data r frm (need_recalc (new_num_missing_data frm) old) ! c =
     (if int (count_nonnan (column frm c)) = old ! c then False
      else is_outlier (column frm c) (rows data ! r ! c) (stdev_limit cfg) (min_points_used cfg))"
  by (simp add: row_outliers_def need_recalc_def new_num_missing_data_def)

text \<open>
  C3: in one sweep over a matrix with a memoization array of the same shape, for every
  cell \<open>(r, c)\<close>, with \<open>w\<close> column \<open>c\<close> of the window of row \<open>r\<close> and \<open>n\<close> its
  non-missing count: the cell's result is \<open>False\<close> when \<open>n\<close> equals \<open>cache[r, c]\<close>
  (whatever the robust test would say), and otherwise
  \<open>is_outlier w matrix[r, c] stdev_limit (min (2 * span + 1) min_num_points)\<close>; in both
  cases the returned memoization array holds \<open>n\<close> at \<open>(r, c)\<close>.
\<close>

theorem sweep_cell:
  fixes data :: "val array2"
  assumes "rect data" and "rect cache" and "shape2 cache = shape2 data"
    and "r < nrows data" and "c < ncols data"
  shows "\<exists>mask cache'.
           InterquartileVarianceAlgorithm_outliers cfg (A2 data) cache = Inr (mask, cache')
           \<and> (let w = column (generator (span_of cfg) data ! r) c;
                   n = int (count_nonnan w)
               in rows mask ! r ! c =
                    (if n = rows cache ! r ! c then False
                     else is_outlier w (rows data ! r ! c) (stdev_limit cfg)
                            (min (2 * span_of cfg + 1) (min_num_points cfg)))
                  \<and> rows cache' ! r ! c = n)"
proof -
  have sh: "nrows cache = nrows data" "ncols cache = ncols data"
    using assms(3) by (simp_all add: shape2_def)
  from sweep_ok [OF assms(2) sh, of "A2 data" cfg] obtain m nm' where
    res: "InterquartileVarianceAlgorithm_outliers cfg (A2 data) cache = Inr (m, nm')"
    and mr: "\<forall>r < nrows data. rows m ! r =
                  row_outliers cfg data r (generator (span_of cfg) data ! r)
                    (need_recalc (new_num_missing_data (generator (span_of cfg) data ! r))
                       (rows cache ! r))"
    and nr: "\<forall>r < nrows data. rows nm' ! r =
                  new_num_missing_data (generator (span_of cfg) data ! r)"
    by auto
  let ?f = "generator (span_of cfg) data ! r"
  have fc: "ncols ?f = ncols data"
    using assms(4) by (rule ncols_generator)
  have old: "length (rows cache ! r) = ncols ?f"
    using assms(2,4) sh fc by (simp add: rect_iff)
  have "rows m ! r ! c =
          (if int (count_nonnan (column ?f c)) = rows cache ! r ! c then False
           else is_outlier (column ?f c) (rows data ! r ! c) (stdev_limit cfg)
                  (min_points_used cfg))"
    using mr assms(4,5) nth_row_outliers [of c ?f "rows cache ! r" cfg data r] fc old
    by simp
  moreover have "rows nm' ! r ! c = int (count_nonnan (column ?f c))"
    using nr assms(4,5) fc by (simp add: new_num_missing_data_def)
  ultimately show ?thesis
    using res by (simp add: Let_def min_points_used_def)
qed

theorem sweep_cell_witness:
  "rect (Array2 1 [[Some 0], [Some 1], [Some 2], [Some 3], [Some (100::real)]])
   \<and> rect (full 5 1 (0::int))
   \<and> shape2 (full 5 1 (0::int))
       = shape2 (Array2 1 [[Some 0], [Some 1], [Some 2], [Some 3], [Some (100::real)]])
   \<and> (\<exists>mask cache'.
         InterquartileVarianceAlgorithm_outliers
           \<lparr>frame = 2, stdev_limit = 5, min_num_points = 20\<rparr>
           (A2 (Array2 1 [[Some 0], [Some 1], [Some 2], [Some 3], [Some 100]])) (full 5 1 0)
           = Inr (mask, cache')
         \<and> rows mask ! 4 ! 0 = True \<and> rows cache' ! 4 ! 0 = 5)"
proof -
  let ?d = "Array2 1 [[Some 0], [Some 1], [Some 2], [Some 3], [Some (100::real)]]"
  let ?cfg = "\<lparr>frame = 2, stdev_limit = 5, min_num_points = 20\<rparr>"
  let ?w = "[Some 0, Some 1, Some 2, Some 3, Some (100::real)]"
  have h: "rect ?d" "rect (full 5 1 (0::int))" "shape2 (full 5 1 (0::int)) = shape2 ?d"
    "4 < nrows ?d" "0 < ncols ?d"
    by (simp_all add: array_eval eval_nat_numeral)
  have w: "column (generator (span_of ?cfg) ?d ! 4) 0 = ?w"
    by (simp add: array_eval span_of_def)
  have c: "rows (full 5 1 (0::int)) ! 4 ! 0 = 0" "rows ?d ! 4 ! 0 = Some 100"
    by (simp_all add: full_def eval_nat_numeral)
  have n: "int (count_nonnan ?w) = 5"
    by (simp add: count_nonnan_def isnan_def)
  have o: "is_outlier ?w (Some 100) (stdev_limit ?cfg)
             (min (2 * span_of ?cfg + 1) (min_num_points ?cfg))"
    by (simp add: outlier_eval span_of_def Let_def)
  from sweep_cell [OF h, of ?cfg, unfolded Let_def w c n]
  obtain mask cache' where
    "InterquartileVarianceAlgorithm_outliers ?cfg (A2 ?d) (full 5 1 0) = Inr (mask, cache')"
    "rows mask ! 4 ! 0 =
       (if (5::int) = 0 then False
        else is_outlier ?w (Some 100) (stdev_limit ?cfg)
               (min (2 * span_of ?cfg + 1) (min_num_points ?cfg)))"
    "rows cache' ! 4 ! 0 = 5"
    by blast
  then have "\<exists>mask cache'.
         InterquartileVarianceAlgorithm_outliers ?cfg (A2 ?d) (full 5 1 0) = Inr (mask, cache')
         \<and> rows mask ! 4 ! 0 = True \<and> rows cache' ! 4 ! 0 = 5"
    using o by auto
  then show ?thesis
    using h(1-3) by blast
qed

section \<open>Properties of the orchestrator\<close>

lemma count_nonnan_Cons:
  "count_nonnan (v # vs) = (if v = None then 0 else 1) + count_nonnan vs"
  by (simp add: count_nonnan_def isnan_def)

lemma count_nonnan_Nil: "count_nonnan [] = 0"
  by (simp add: count_nonnan_def)

lemma count_nonnan_le_length: "count_nonnan vs \<le> length vs"
  by (simp add: count_nonnan_def)

lemma count_masked_le:
  "count_nonnan (map2 (\<lambda>v b. if b then None else v) row mrow) \<le> count_nonnan row"
proof (induction row arbitrary: mrow)
  case Nil
  then show ?case by (simp add: count_nonnan_Nil)
next
  case (Cons v row)
  then show ?case
    by (cases mrow) (auto simp: count_nonnan_Cons count_nonnan_Nil intro: le_SucI)
qed

lemma count_masked_less:
  assumes "c < length row" and "c < length mrow" and "mrow ! c" and "row ! c \<noteq> None"
  shows "count_nonnan (map2 (\<lambda>v b. if b then None else v) row mrow) < count_nonnan row"
  using assms
proof (induction row arbitrary: mrow c)
  case Nil
  then show ?case by simp
next
  case (Cons v row)
  then obtain b bs where m: "mrow = b # bs"
    by (cases mrow) auto
  show ?case
  proof (cases c)
    case 0
    then show ?thesis
      using Cons.prems m count_masked_le [of row bs]
      by (auto simp: count_nonnan_Cons)
  next
    case (Suc c')
    then have "count_nonnan (map2 (\<lambda>v b. if b then None else v) row bs) < count_nonnan row"
      using Cons.prems m by (intro Cons.IH [of c' bs]) auto
    then show ?thesis
      using m by (auto simp: count_nonnan_Cons)
  qed
qed

lemma total_masked_le:
  "sum_list (map count_nonnan (map2 (map2 (\<lambda>v b. if b then None else v)) rs ms))
     \<le> sum_list (map count_nonnan rs)"
proof (induction rs arbitrary: ms)
  case Nil
  then show ?case by simp
next
  case (Cons r rs)
  show ?case
  proof (cases ms)
    case Nil
    then show ?thesis by simp
  next
    case (Cons m ms')
    then show ?thesis
      using Cons.IH [of ms'] count_masked_le [of r m] by simp
  qed
qed

lemma total_masked_less:
  assumes "r < length rs" and "r < length ms" and "c < length (rs ! r)"
    and "c < length (ms ! r)" and "ms ! r ! c" and "rs ! r ! c \<noteq> None"
  shows "sum_list (map count_nonnan (map2 (map2 (\<lambda>v b. if b then None else v)) rs ms))
           < sum_list (map count_nonnan rs)"
  using assms
proof (induction rs arbitrary: ms r)
  case Nil
  then show ?case by simp
next
  case (Cons x rs)
  then obtain m ms' where m: "ms = m # ms'"
    by (cases ms) auto
  show ?case
  proof (cases r)
    case 0
    then have "count_nonnan (map2 (\<lambda>v b. if b then None else v) x m) < count_nonnan x"
      using Cons.prems m by (intro count_masked_less [of c]) auto
    then show ?thesis
      using m total_masked_le [of rs ms'] by simp
  next
    case (Suc r')
    then have "sum_list (map count_nonnan (map2 (map2 (\<lambda>v b. if b then None else v)) rs ms'))
                 < sum_list (map count_nonnan rs)"
      using Cons.prems m by (intro Cons.IH [of r' ms']) auto
    then show ?thesis
      using m count_masked_le [of x m] by simp
  qed
qed

lemma np_sum_pos:
  assumes "np_sum m \<noteq> 0"
  shows "\<exists>r < nrows m. \<exists>c < length (rows m ! r). rows m ! r ! c"
proof -
  from assms obtain row where row: "row \<in> set (rows m)" "filter (\<lambda>b. b) row \<noteq> []"
    by (auto simp: np_sum_def)
  then obtain b where "b \<in> set row" "b"
    by (metis filter_False)
  then obtain c where "c < length row" "row ! c"
    by (metis in_set_conv_nth)
  moreover from row obtain r where "r < length (rows m)" "rows m ! r = row"
    by (metis in_set_conv_nth)
  ultimately show ?thesis
    by (auto simp: nrows_def)
qed

lemma nonnan_total_le:
  assumes "rect a"
  shows "nonnan_total a \<le> nrows a * ncols a"
proof -
  have "sum_list (map count_nonnan rs) \<le> length rs * n" if "\<forall>r \<in> set rs. length r = n" for rs n
    using that
  proof (induction rs)
    case Nil
    then show ?case by simp
  next
    case (Cons r rs)
    then show ?case
      using count_nonnan_le_length [of r] by auto
  qed
  then show ?thesis
    using assms by (simp add: nonnan_total_def nrows_def rect_def list_all_iff)
qed

lemma is_outlier_nan_point: "is_outlier col None k m = False"
  by (simp add: is_outlier_def isnan_def Let_def)

lemma rect_map2:
  assumes "rect a" and "rect m" and "nrows m = nrows a" and "ncols m = ncols a"
  shows "rect (Array2 (ncols a) (map2 (map2 f) (rows a) (rows m)))"
    and "nrows (Array2 (ncols a) (map2 (map2 f) (rows a) (rows m))) = nrows a"
  using assms by (simp_all add: rect_iff nrows_def)

text \<open>
  One iteration of either loop when the memoization array has the data's shape: the sweep
  returns arrays of that shape, and when it flags anything the assignment of NaN succeeds,
  keeps the shape and lowers the number of non-missing cells.
\<close>

lemma loop_step:
  assumes "rect a" and "rect nm" and "nrows nm = nrows a" and "ncols nm = ncols a"
  shows "\<exists>m nm'. InterquartileVarianceAlgorithm_outliers cfg (A2 a) nm = Inr (m, nm')
           \<and> ncols m = ncols a \<and> nrows m = nrows a \<and> rect m
           \<and> ncols nm' = ncols a \<and> nrows nm' = nrows a \<and> rect nm'
           \<and> (np_sum m \<noteq> 0 \<longrightarrow>
                (\<exists>a'. mask_assign_nan (A2 a) m = Inr (A2 a')
                   \<and> rect a' \<and> nrows a' = nrows a \<and> ncols a' = ncols a
                   \<and> nonnan_total a' < nonnan_total a))"
proof -
  from sweep_ok [OF assms(2-4), of "A2 a" cfg] obtain m nm' where
    res: "InterquartileVarianceAlgorithm_outliers cfg (A2 a) nm = Inr (m, nm')"
    and sh: "ncols m = ncols a" "nrows m = nrows a" "rect m"
            "ncols nm' = ncols a" "nrows nm' = nrows a" "rect nm'"
    and mr: "\<forall>r < nrows a. rows m ! r =
                  row_outliers cfg a r (generator (span_of cfg) a ! r)
                    (need_recalc (new_num_missing_data (generator (span_of cfg) a ! r))
                       (rows nm ! r))"
    by auto
  let ?a' = "Array2 (ncols a) (map2 (map2 (\<lambda>v b. if b then None else v)) (rows a) (rows m))"
  have "\<exists>a'. mask_assign_nan (A2 a) m = Inr (A2 a')
           \<and> rect a' \<and> nrows a' = nrows a \<and> ncols a' = ncols a
           \<and> nonnan_total a' < nonnan_total a" if pos: "np_sum m \<noteq> 0"
  proof -
    from np_sum_pos [OF pos] obtain r c where
      rc: "r < nrows m" "c < length (rows m ! r)" "rows m ! r ! c"
      by blast
    then have r: "r < nrows a" and c: "c < ncols a"
      using sh by (simp_all add: rect_iff)
    let ?f = "generator (span_of cfg) a ! r"
    have fc: "ncols ?f = ncols a"
      using r by (rule ncols_generator)
    have old: "length (rows nm ! r) = ncols ?f"
      using assms(2-4) r fc by (simp add: rect_iff)
    have "rows m ! r ! c =
            (if int (count_nonnan (column ?f c)) = rows nm ! r ! c then False
             else is_outlier (column ?f c) (rows a ! r ! c) (stdev_limit cfg)
                    (min_points_used cfg))"
      using mr r c nth_row_outliers [of c ?f "rows nm ! r" cfg a r] fc old by simp
    then have "is_outlier (column ?f c) (rows a ! r ! c) (stdev_limit cfg) (min_points_used cfg)"
      using rc(3) by (simp split: if_splits)
    then have nonnan: "rows a ! r ! c \<noteq> None"
      using is_outlier_nan_point by metis
    have "nonnan_total ?a' < nonnan_total a"
      unfolding nonnan_total_def array2.sel
      using r c rc nonnan sh assms(1)
      by (intro total_masked_less [of r _ _ c]) (simp_all add: nrows_def rect_iff)
    moreover have "mask_assign_nan (A2 a) m = Inr (A2 ?a')"
      using sh by (simp add: mask_assign_nan_def shape2_def)
    ultimately show ?thesis
      using rect_map2 [OF assms(1) sh(3,2,1)] by auto
  qed
  then show ?thesis
    using res sh by blast
qed

lemma add_mask_shape:
  assumes "rect outl" and "rect m" and "nrows m = nrows outl" and "ncols m = ncols outl"
  shows "rect (add_mask outl m)" and "nrows (add_mask outl m) = nrows outl"
    and "ncols (add_mask outl m) = ncols outl"
  using rect_map2 [OF assms] by (simp_all add: add_mask_def)

lemma astype_bool_shape:
  "ncols (astype_bool a) = ncols a" "nrows (astype_bool a) = nrows a"
  "rect a \<Longrightarrow> rect (astype_bool a)"
  by (simp_all add: astype_bool_def nrows_def rect_iff)

text \<open>
  The \<^verbatim>\<open>while\<close> loop ends: started on a rectangular array with \<open>k\<close> or fewer non-missing
  cells it returns normally after at least one and at most \<open>k + 1\<close> further sweeps, the
  result has the shape it started with, and only the object at \<open>d\<close> is written.
\<close>

lemma sweeps_while_total:
  assumes "d < length st" and "st ! d = A2 a" and "rect a"
    and "rect nm" and "nrows nm = nrows a" and "ncols nm = ncols a"
    and "rect outl" and "nrows outl = nrows a" and "ncols outl = ncols a"
    and "nonnan_total a \<le> k"
  shows "\<exists>outl' st' n'. sweeps_while cfg d st outl nm n = Some (Inr (outl', st', n'))
           \<and> n < n' \<and> n' \<le> n + k + 1
           \<and> rect outl' \<and> nrows outl' = nrows a \<and> ncols outl' = ncols a
           \<and> length st' = length st \<and> (\<forall>i < length st. i \<noteq> d \<longrightarrow> st' ! i = st ! i)"
  using assms
proof (induction k arbitrary: st a nm outl n)
  case 0
  from loop_step [OF "0.prems"(3-6), of cfg] obtain m nm' where
    res: "InterquartileVarianceAlgorithm_outliers cfg (A2 a) nm = Inr (m, nm')"
    and sh: "ncols m = ncols a" "nrows m = nrows a" "rect m"
    and dec: "np_sum m \<noteq> 0 \<longrightarrow>
                (\<exists>a'. mask_assign_nan (A2 a) m = Inr (A2 a')
                   \<and> rect a' \<and> nrows a' = nrows a \<and> ncols a' = ncols a
                   \<and> nonnan_total a' < nonnan_total a)"
    by blast
  have z: "np_sum m = 0"
    using dec "0.prems"(10) by auto
  have "sweeps_while cfg d st outl nm n = Some (Inr (add_mask outl m, st, Suc n))"
    by (subst sweeps_while.simps) (simp add: "0.prems"(2) res z)
  then show ?case
    using add_mask_shape [of outl m] "0.prems"(7-9) sh by simp
next
  case (Suc k)
  from loop_step [OF Suc.prems(3-6), of cfg] obtain m nm' where
    res: "InterquartileVarianceAlgorithm_outliers cfg (A2 a) nm = Inr (m, nm')"
    and sh: "ncols m = ncols a" "nrows m = nrows a" "rect m"
    and shn: "ncols nm' = ncols a" "nrows nm' = nrows a" "rect nm'"
    and dec: "np_sum m \<noteq> 0 \<longrightarrow>
                (\<exists>a'. mask_assign_nan (A2 a) m = Inr (A2 a')
                   \<and> rect a' \<and> nrows a' = nrows a \<and> ncols a' = ncols a
                   \<and> nonnan_total a' < nonnan_total a)"
    by blast
  note am = add_mask_shape [of outl m]
  show ?case
  proof (cases "np_sum m = 0")
    case True
    have "sweeps_while cfg d st outl nm n = Some (Inr (add_mask outl m, st, Suc n))"
      by (subst sweeps_while.simps) (simp add: Suc.prems(2) res True)
    then show ?thesis
      using am Suc.prems(7-9) sh by simp
  next
    case False
    with dec obtain a' where
      asg: "mask_assign_nan (A2 a) m = Inr (A2 a')"
      and a': "rect a'" "nrows a' = nrows a" "ncols a' = ncols a"
      and less: "nonnan_total a' < nonnan_total a"
      by blast
    let ?st = "st[d := A2 a']"
    have unf: "sweeps_while cfg d st outl nm n
                 = sweeps_while cfg d ?st (add_mask outl m) nm' (Suc n)"
      by (subst sweeps_while.simps) (simp add: Suc.prems(2) res False asg)
    have p: "d < length ?st" "?st ! d = A2 a'" "nonnan_total a' \<le> k"
      using Suc.prems(1,10) less by simp_all
    have q: "rect nm'" "nrows nm' = nrows a'" "ncols nm' = ncols a'"
      "rect (add_mask outl m)" "nrows (add_mask outl m) = nrows a'"
      "ncols (add_mask outl m) = ncols a'"
      using shn a' am Suc.prems(7-9) sh by simp_all
    from Suc.IH [OF p(1,2) a'(1) q p(3), of "Suc n"] obtain outl' st' n' where
      "sweeps_while cfg d ?st (add_mask outl m) nm' (Suc n) = Some (Inr (outl', st', n'))"
      "Suc n < n'" "n' \<le> Suc n + k + 1"
      "rect outl'" "nrows outl' = nrows a'" "ncols outl' = ncols a'"
      "length st' = length ?st" "\<forall>i < length ?st. i \<noteq> d \<longrightarrow> st' ! i = ?st ! i"
      by blast
    then show ?thesis
      using unf a' by auto
  qed
qed

text \<open>The \<^verbatim>\<open>for\<close> loop returns normally, after at most \<open>k\<close> further sweeps.\<close>

lemma sweeps_for_total:
  assumes "d < length st" and "st ! d = A2 a" and "rect a"
    and "rect nm" and "nrows nm = nrows a" and "ncols nm = ncols a"
    and "rect outl" and "nrows outl = nrows a" and "ncols outl = ncols a"
  shows "\<exists>outl' st' n'. sweeps_for cfg d st outl nm k n = Inr (outl', st', n')
           \<and> n \<le> n' \<and> n' \<le> n + k
           \<and> rect outl' \<and> nrows outl' = nrows a \<and> ncols outl' = ncols a
           \<and> length st' = length st \<and> (\<forall>i < length st. i \<noteq> d \<longrightarrow> st' ! i = st ! i)"
  using assms
proof (induction k arbitrary: st a nm outl n)
  case 0
  then show ?case by simp
next
  case (Suc k)
  from loop_step [OF Suc.prems(3-6), of cfg] obtain m nm' where
    res: "InterquartileVarianceAlgorithm_outliers cfg (A2 a) nm = Inr (m, nm')"
    and sh: "ncols m = ncols a" "nrows m = nrows a" "rect m"
    and shn: "ncols nm' = ncols a" "nrows nm' = nrows a" "rect nm'"
    and dec: "np_sum m \<noteq> 0 \<longrightarrow>
                (\<exists>a'. mask_assign_nan (A2 a) m = Inr (A2 a')
                   \<and> rect a' \<and> nrows a' = nrows a \<and> ncols a' = ncols a
                   \<and> nonnan_total a' < nonnan_total a)"
    by blast
  note am = add_mask_shape [of outl m]
  show ?case
  proof (cases "np_sum m = 0")
    case True
    have "sweeps_for cfg d st outl nm (Suc k) n = Inr (add_mask outl m, st, Suc n)"
      by (simp add: Suc.prems(2) res True)
    then show ?thesis
      using am Suc.prems(7-9) sh by simp
  next
    case False
    with dec obtain a' where
      asg: "mask_assign_nan (A2 a) m = Inr (A2 a')"
      and a': "rect a'" "nrows a' = nrows a" "ncols a' = ncols a"
      by blast
    let ?st = "st[d := A2 a']"
    have unf: "sweeps_for cfg d st outl nm (Suc k) n
                 = sweeps_for cfg d ?st (add_mask outl m) nm' k (Suc n)"
      by (simp add: Suc.prems(2) res False asg)
    have p: "d < length ?st" "?st ! d = A2 a'"
      using Suc.prems(1) by simp_all
    have q: "rect nm'" "nrows nm' = nrows a'" "ncols nm' = ncols a'"
      "rect (add_mask outl m)" "nrows (add_mask outl m) = nrows a'"
      "ncols (add_mask outl m) = ncols a'"
      using shn a' am Suc.prems(7-9) sh by simp_all
    from Suc.IH [OF p a'(1) q, of "Suc n"] obtain outl' st' n' where
      "sweeps_for cfg d ?st (add_mask outl m) nm' k (Suc n) = Inr (outl', st', n')"
      "Suc n \<le> n'" "n' \<le> Suc n + k"
      "rect outl'" "nrows outl' = nrows a'" "ncols outl' = ncols a'"
      "length st' = length ?st" "\<forall>i < length ?st. i \<noteq> d \<longrightarrow> st' ! i = ?st ! i"
      by blast
    then show ?thesis
      using unf a' by auto
  qed
qed

lemma rebind_data_ok:
  assumes "d0 < length st0"
  shows "\<exists>st d. rebind_data st0 d0 = (st, d) \<and> d < length st
           \<and> st ! d = A2 (as_columns (st0 ! d0))
           \<and> (\<forall>i < length st0. i \<noteq> d \<longrightarrow> st ! i = st0 ! i)
           \<and> (case st0 ! d0 of A1 xs \<Rightarrow> d = length st0 | A2 a \<Rightarrow> d = d0 \<and> st = st0)"
  using assms by (cases "st0 ! d0") (auto simp: rebind_data_def nth_append)

lemma full_shape:
  "rect (full r c v)" "nrows (full r c v) = r" "ncols (full r c v) = c"
  by (simp_all add: full_def rect_iff nrows_def)

text \<open>
  The call returns normally for every rectangular input and every iteration cap; the
  result has the shape of the input as a matrix of columns; without a cap the number of
  sweeps is at least one and at most one more than the number of non-missing cells, with a
  cap at most the cap; objects other than the array the loop works on are not written.
\<close>

lemma outliers_total:
  assumes "d0 < length st0" and "rect (as_columns (st0 ! d0))"
  shows "\<exists>mask st' n d. OutlierDetector_outliers cfg st0 d0 it = Some (Inr (mask, st', n))
           \<and> rect mask
           \<and> nrows mask = nrows (as_columns (st0 ! d0))
           \<and> ncols mask = ncols (as_columns (st0 ! d0))
           \<and> (it = None \<longrightarrow> 1 \<le> n \<and> n \<le> nonnan_total (as_columns (st0 ! d0)) + 1)
           \<and> (\<forall>k. it = Some k \<longrightarrow> n \<le> nat k)
           \<and> (case st0 ! d0 of A1 xs \<Rightarrow> d = length st0 | A2 a \<Rightarrow> d = d0)
           \<and> (\<forall>i < length st0. i \<noteq> d \<longrightarrow> st' ! i = st0 ! i)"
proof -
  let ?a = "as_columns (st0 ! d0)"
  let ?z = "full (nrows ?a) (ncols ?a) (0::nat)"
  let ?nm = "full (nrows ?a) (ncols ?a) (0::int)"
  from rebind_data_ok [OF assms(1)] obtain st d where
    rb: "rebind_data st0 d0 = (st, d)" and d: "d < length st"
    and sd: "st ! d = A2 ?a"
    and keep: "\<forall>i < length st0. i \<noteq> d \<longrightarrow> st ! i = st0 ! i"
    and wh: "case st0 ! d0 of A1 xs \<Rightarrow> d = length st0 | A2 a \<Rightarrow> d = d0 \<and> st = st0"
    by blast
  have len: "length st0 \<le> length st"
    using rb by (cases "st0 ! d0") (auto simp: rebind_data_def)
  have wh': "case st0 ! d0 of A1 xs \<Rightarrow> d = length st0 | A2 a \<Rightarrow> d = d0"
    using wh by (cases "st0 ! d0") auto
  have ac: "as_columns (st ! d) = ?a"
    by (simp add: sd)
  have unf: "OutlierDetector_outliers cfg st0 d0 it =
               (case it of
                  None \<Rightarrow> map_option (map_sum id finish) (sweeps_while cfg d st ?z ?nm 0)
                | Some k \<Rightarrow> Some (map_sum id finish (sweeps_for cfg d st ?z ?nm (nat k) 0)))"
    unfolding OutlierDetector_outliers_def rb prod.case Let_def ac ..
  show ?thesis
  proof (cases it)
    case None
    from sweeps_while_total [where cfg = cfg and n = 0 and outl = ?z and nm = ?nm,
        OF d sd assms(2) full_shape full_shape le_refl]
    obtain outl' st' n' where
      r: "sweeps_while cfg d st ?z ?nm 0 = Some (Inr (outl', st', n'))"
      and n: "0 < n'" "n' \<le> 0 + nonnan_total ?a + 1"
      and sh: "rect outl'" "nrows outl' = nrows ?a" "ncols outl' = ncols ?a"
      and st: "length st' = length st" "\<forall>i < length st. i \<noteq> d \<longrightarrow> st' ! i = st ! i"
      by blast
    have "OutlierDetector_outliers cfg st0 d0 it = Some (Inr (astype_bool outl', st', n'))"
      using unf r None by (simp add: finish_def)
    moreover have "\<forall>i < length st0. i \<noteq> d \<longrightarrow> st' ! i = st0 ! i"
      using st keep len by auto
    ultimately show ?thesis
      using n sh wh' None by (auto simp: astype_bool_shape)
  next
    case (Some k)
    from sweeps_for_total [where cfg = cfg and k = "nat k" and n = 0 and outl = ?z and nm = ?nm,
        OF d sd assms(2) full_shape full_shape]
    obtain outl' st' n' where
      r: "sweeps_for cfg d st ?z ?nm (nat k) 0 = Inr (outl', st', n')"
      and n: "n' \<le> 0 + nat k"
      and sh: "rect outl'" "nrows outl' = nrows ?a" "ncols outl' = ncols ?a"
      and st: "length st' = length st" "\<forall>i < length st. i \<noteq> d \<longrightarrow> st' ! i = st ! i"
      by blast
    have "OutlierDetector_outliers cfg st0 d0 it = Some (Inr (astype_bool outl', st', n'))"
      using unf r Some by (simp add: finish_def)
    moreover have "\<forall>i < length st0. i \<noteq> d \<longrightarrow> st' ! i = st0 ! i"
      using st keep len by auto
    ultimately show ?thesis
      using n sh wh' Some by (auto simp: astype_bool_shape)
  qed
qed

lemmas detector_eval = np_sum_def add_mask_def astype_bool_def mask_assign_nan_def
  rebind_data_def finish_def OutlierDetector_outliers_def

text \<open>
  C4 (as stated, refuted): on the \<open>1 \<times> 1\<close> matrix \<open>[[5]]\<close> with half-width 0 the first
  sweep flags the only cell (a window of one value has zero spread), the second sweep
  finds nothing and ends the loop: two sweeps, more than \<open>rows \<times> columns = 1\<close>.
\<close>

theorem outliers_sweeps_counterexample:
  "OutlierDetector_outliers \<lparr>frame = 0, stdev_limit = 5, min_num_points = 20\<rparr>
     [A2 (Array2 1 [[Some 5]])] 0 None
     = Some (Inr (Array2 1 [[True]], [A2 (Array2 1 [[None]])], 2))
   \<and> \<not> (2::nat) \<le> nrows (Array2 1 [[Some (5::real)]]) * ncols (Array2 1 [[Some (5::real)]])"
proof -
  let ?cfg = "\<lparr>frame = 0, stdev_limit = 5, min_num_points = 20\<rparr>"
  have s1: "InterquartileVarianceAlgorithm_outliers ?cfg (A2 (Array2 1 [[Some 5]])) (Array2 1 [[0]])
              = Inr (Array2 1 [[True]], Array2 1 [[1]])"
    by (simp add: array_eval outlier_eval sweep_eval Let_def)
  have s2: "InterquartileVarianceAlgorithm_outliers ?cfg (A2 (Array2 1 [[None]])) (Array2 1 [[1]])
              = Inr (Array2 1 [[False]], Array2 1 [[0]])"
    by (simp add: array_eval outlier_eval sweep_eval Let_def)
  have w2: "sweeps_while ?cfg 0 [A2 (Array2 1 [[None]])] (Array2 1 [[1]]) (Array2 1 [[1]]) 1
              = Some (Inr (Array2 1 [[1]], [A2 (Array2 1 [[None]])], 2))"
    by (subst sweeps_while.simps) (simp add: s2 [simplified] detector_eval)
  have w1: "sweeps_while ?cfg 0 [A2 (Array2 1 [[Some 5]])] (Array2 1 [[0]]) (Array2 1 [[0]]) 0
              = Some (Inr (Array2 1 [[1]], [A2 (Array2 1 [[None]])], 2))"
    by (subst sweeps_while.simps)
      (simp add: s1 [simplified] detector_eval shape2_def nrows_def w2 [simplified])
  show ?thesis
    by (simp add: detector_eval full_def nrows_def w1 [simplified])
qed

text \<open>
  C4 (amended): for every rectangular input and no iteration cap the call returns, and the
  loop makes at least one sweep and at most one more than the number of non-missing cells,
  hence at most \<open>rows \<times> columns + 1\<close> sweeps.
\<close>

theorem outliers_terminates:
  assumes "d0 < length st0" and "rect (as_columns (st0 ! d0))"
  shows "\<exists>mask st' n. OutlierDetector_outliers cfg st0 d0 None = Some (Inr (mask, st', n))
           \<and> 1 \<le> n
           \<and> n \<le> nonnan_total (as_columns (st0 ! d0)) + 1
           \<and> n \<le> nrows (as_columns (st0 ! d0)) * ncols (as_columns (st0 ! d0)) + 1"
proof -
  from outliers_total [OF assms, of cfg None] obtain mask st' n where
    "OutlierDetector_outliers cfg st0 d0 None = Some (Inr (mask, st', n))"
    "1 \<le> n" "n \<le> nonnan_total (as_columns (st0 ! d0)) + 1"
    by auto
  then show ?thesis
    using nonnan_total_le [OF assms(2)] by auto
qed

theorem outliers_terminates_witness:
  "0 < length [A2 (Array2 1 [[Some 0], [Some 1], [Some 2], [Some 3], [Some (100::real)]])]
   \<and> rect (as_columns
         ([A2 (Array2 1 [[Some 0], [Some 1], [Some 2], [Some 3], [Some (100::real)]])] ! 0))
   \<and> (\<exists>mask st' n.
         OutlierDetector_outliers \<lparr>frame = 2, stdev_limit = 5, min_num_points = 20\<rparr>
           [A2 (Array2 1 [[Some 0], [Some 1], [Some 2], [Some 3], [Some 100]])] 0 None
           = Some (Inr (mask, st', n))
         \<and> 1 \<le> n \<and> n \<le> 5 + 1)"
proof -
  let ?st = "[A2 (Array2 1 [[Some 0], [Some 1], [Some 2], [Some 3], [Some (100::real)]])]"
  have h: "0 < length ?st" "rect (as_columns (?st ! 0))"
    by (simp_all add: rect_def)
  have "nrows (as_columns (?st ! 0)) * ncols (as_columns (?st ! 0)) = 5"
    by (simp add: nrows_def)
  with outliers_terminates [OF h, of "\<lparr>frame = 2, stdev_limit = 5, min_num_points = 20\<rparr>"]
  have "\<exists>mask st' n.
         OutlierDetector_outliers \<lparr>frame = 2, stdev_limit = 5, min_num_points = 20\<rparr>
           ?st 0 None = Some (Inr (mask, st', n))
         \<and> 1 \<le> n \<and> n \<le> 5 + 1"
    by auto
  then show ?thesis
    using h by blast
qed

text \<open>
  C8 (as stated, refuted): for the one-dimensional input \<open>[1, 2, 3]\<close>, of shape \<open>(3,)\<close>, the
  returned array has the shape \<open>(3, 1)\<close> of the reshaped single column, which is not the
  shape of the data the caller supplied.
\<close>

theorem outliers_shape_counterexample:
  "OutlierDetector_outliers \<lparr>frame = 1, stdev_limit = 5, min_num_points = 20\<rparr>
     [A1 [Some 1, Some 2, Some 3]] 0 None
     = Some (Inr (Array2 1 [[False], [False], [False]],
                  [A1 [Some 1, Some 2, Some 3], A2 (Array2 1 [[Some 1], [Some 2], [Some 3]])],
                  1))
   \<and> shape (A2 (Array2 1 [[False], [False], [False]])) = [3, 1]
   \<and> shape (A1 [Some 1, Some 2, Some (3::real)]) = [3]"
proof -
  let ?cfg = "\<lparr>frame = 1, stdev_limit = 5, min_num_points = 20\<rparr>"
  let ?st = "[A1 [Some 1, Some 2, Some 3], A2 (Array2 1 [[Some 1], [Some 2], [Some 3]])]"
  have s1: "InterquartileVarianceAlgorithm_outliers ?cfg
              (A2 (Array2 1 [[Some 1], [Some 2], [Some 3]])) (Array2 1 [[0], [0], [0]])
              = Inr (Array2 1 [[False], [False], [False]], Array2 1 [[3], [3], [3]])"
    by (simp add: array_eval outlier_eval sweep_eval Let_def)
  have w1: "sweeps_while ?cfg 1 ?st (Array2 1 [[0], [0], [0]]) (Array2 1 [[0], [0], [0]]) 0
              = Some (Inr (Array2 1 [[0], [0], [0]], ?st, 1))"
    by (subst sweeps_while.simps) (simp add: s1 [simplified] detector_eval)
  show ?thesis
    by (simp add: detector_eval full_def nrows_def shape2_def w1 [simplified] eval_nat_numeral)
qed

text \<open>
  C8 (amended): for every rectangular input and every iteration cap the call returns a
  rectangular boolean array; for a two-dimensional input it has the input's shape, and
  for a one-dimensional input of length \<open>n\<close> it has the shape \<open>(n, 1)\<close> of the single-column
  matrix the input was reshaped to.
\<close>

theorem outliers_shape:
  assumes "d0 < length st0" and "rect (as_columns (st0 ! d0))"
  shows "\<exists>mask st' n. OutlierDetector_outliers cfg st0 d0 it = Some (Inr (mask, st', n))
           \<and> rect mask
           \<and> shape (A2 mask) =
               (case st0 ! d0 of A1 xs \<Rightarrow> [length xs, 1] | A2 a \<Rightarrow> shape (A2 a))"
proof -
  from outliers_total [OF assms, of cfg it] obtain mask st' n where
    r: "OutlierDetector_outliers cfg st0 d0 it = Some (Inr (mask, st', n))" "rect mask"
    and sh: "nrows mask = nrows (as_columns (st0 ! d0))"
            "ncols mask = ncols (as_columns (st0 ! d0))"
    by auto
  have "shape (A2 mask) = (case st0 ! d0 of A1 xs \<Rightarrow> [length xs, 1] | A2 a \<Rightarrow> shape (A2 a))"
    using sh by (cases "st0 ! d0") (simp_all add: shape2_def nrows_def)
  then show ?thesis
    using r by blast
qed

theorem outliers_shape_witness:
  "0 < length [A2 (Array2 1 [[Some 0], [Some 1], [Some 2], [Some 3], [Some (100::real)]])]
   \<and> rect (as_columns
         ([A2 (Array2 1 [[Some 0], [Some 1], [Some 2], [Some 3], [Some (100::real)]])] ! 0))
   \<and> (\<exists>mask st' n.
         OutlierDetector_outliers \<lparr>frame = 2, stdev_limit = 5, min_num_points = 20\<rparr>
           [A2 (Array2 1 [[Some 0], [Some 1], [Some 2], [Some 3], [Some 100]])] 0 (Some 2)
           = Some (Inr (mask, st', n))
         \<and> rect mask \<and> shape (A2 mask) = [5, 1])"
proof -
  let ?st = "[A2 (Array2 1 [[Some 0], [Some 1], [Some 2], [Some 3], [Some (100::real)]])]"
  have h: "0 < length ?st" "rect (as_columns (?st ! 0))"
    by (simp_all add: rect_def)
  from outliers_shape [OF h, of "\<lparr>frame = 2, stdev_limit = 5, min_num_points = 20\<rparr>" "Some 2"]
  have "\<exists>mask st' n.
         OutlierDetector_outliers \<lparr>frame = 2, stdev_limit = 5, min_num_points = 20\<rparr>
           ?st 0 (Some 2) = Some (Inr (mask, st', n))
         \<and> rect mask \<and> shape (A2 mask) = [5, 1]"
    by (simp add: shape2_def nrows_def eval_nat_numeral)
  then show ?thesis
    using h by blast
qed

text \<open>
  C2 says that after the call the caller's matrix holds exactly the values it held before.
  The code breaks it for a two-dimensional input: here the first sweep flags the spike,
  the loop writes NaN over it in the array that \<^verbatim>\<open>data\<close> names, which is the caller's
  own object at address 0, and after the call (two sweeps, mask true at the spike) that
  object holds NaN where the caller had 100.
\<close>

theorem outliers_mutates_caller_matrix:
  "OutlierDetector_outliers \<lparr>frame = 2, stdev_limit = 5, min_num_points = 20\<rparr>
     [A2 (Array2 1 [[Some 0], [Some 1], [Some 2], [Some 3], [Some 100]])] 0 None
     = Some (Inr (Array2 1 [[False], [False], [False], [False], [True]],
                  [A2 (Array2 1 [[Some 0], [Some 1], [Some 2], [Some 3], [None]])],
                  2))
   \<and> [A2 (Array2 1 [[Some 0], [Some 1], [Some 2], [Some 3], [None]])] ! 0
       \<noteq> [A2 (Array2 1 [[Some 0], [Some 1], [Some 2], [Some 3], [Some (100::real)]])] ! 0"
proof -
  let ?cfg = "\<lparr>frame = 2, stdev_limit = 5, min_num_points = 20\<rparr>"
  let ?d = "Array2 1 [[Some 0], [Some 1], [Some 2], [Some 3], [Some (100::real)]]"
  let ?d' = "Array2 1 [[Some 0], [Some 1], [Some 2], [Some 3], [None :: val]]"
  let ?m = "Array2 1 [[False], [False], [False], [False], [True]]"
  let ?o = "Array2 1 [[0], [0], [0], [0], [1::nat]]"
  have s1: "InterquartileVarianceAlgorithm_outliers ?cfg (A2 ?d)
              (Array2 1 [[0], [0], [0], [0], [0]])
              = Inr (?m, Array2 1 [[5], [5], [5], [5], [5]])"
    by (simp add: array_eval outlier_eval sweep_eval Let_def)
  have s2: "InterquartileVarianceAlgorithm_outliers ?cfg (A2 ?d')
              (Array2 1 [[5], [5], [5], [5], [5]])
              = Inr (Array2 1 [[False], [False], [False], [False], [False]],
                     Array2 1 [[4], [4], [4], [4], [4]])"
    by (simp add: array_eval outlier_eval sweep_eval Let_def)
  have w2: "sweeps_while ?cfg 0 [A2 ?d'] ?o (Array2 1 [[5], [5], [5], [5], [5]]) 1
              = Some (Inr (?o, [A2 ?d'], 2))"
    by (subst sweeps_while.simps) (simp add: s2 [simplified] detector_eval)
  have w1: "sweeps_while ?cfg 0 [A2 ?d] (Array2 1 [[0], [0], [0], [0], [0]])
              (Array2 1 [[0], [0], [0], [0], [0]]) 0
              = Some (Inr (?o, [A2 ?d'], 2))"
    by (subst sweeps_while.simps)
      (simp add: s1 [simplified] detector_eval shape2_def nrows_def w2 [simplified])
  show ?thesis
    by (simp add: detector_eval full_def nrows_def w1 [simplified] eval_nat_numeral)
qed

text \<open>
  The sibling path: a one-dimensional input is copied before the loop, and the caller's
  object is the same after the call, whatever the loop flags.
\<close>

lemma outliers_keeps_1d_input:
  assumes "d0 < length st0" and "st0 ! d0 = A1 xs"
  shows "\<exists>mask st' n. OutlierDetector_outliers cfg st0 d0 it = Some (Inr (mask, st', n))
           \<and> st' ! d0 = st0 ! d0"
proof -
  have "rect (as_columns (st0 ! d0))"
    unfolding assms(2) by (rule rect_as_columns_A1)
  from outliers_total [OF assms(1) this, of cfg it] assms show ?thesis
    by auto
qed

section \<open>An all-missing matrix\<close>

lemma set_py_slice: "set (py_slice start stop xs) \<subseteq> set xs"
  unfolding py_slice_def Let_def
  by (meson set_take_subset set_drop_subset subset_trans)

lemma rows_frame_at_subset: "set (rows (frame_at f a idx)) \<subseteq> set (rows a)"
  by (simp add: frame_at_def slice_rows_def set_py_slice)

lemma count_nonnan_all_nan: "\<forall>v \<in> set vs. v = None \<Longrightarrow> count_nonnan vs = 0"
  by (induction vs) (simp_all add: count_nonnan_def isnan_def)

text \<open>On an all-missing matrix every window column has no non-missing value.\<close>

lemma new_num_missing_data_all_nan:
  assumes "rect a" and "\<forall>row \<in> set (rows a). \<forall>v \<in> set row. v = None" and "r < nrows a"
  shows "new_num_missing_data (generator f a ! r) = replicate (ncols a) 0"
proof -
  let ?frm = "generator f a ! r"
  have frm: "?frm = frame_at f a (int r)"
    using assms(3) by (simp add: generator_def)
  have nc: "ncols ?frm = ncols a"
    using assms(3) by (rule ncols_generator)
  have "count_nonnan (column ?frm i) = 0" if "i < ncols a" for i
  proof (rule count_nonnan_all_nan, rule ballI)
    fix v assume "v \<in> set (column ?frm i)"
    then obtain row where row: "row \<in> set (rows ?frm)" "v = row ! i"
      by (auto simp: column_def)
    then have in_a: "row \<in> set (rows a)"
      using rows_frame_at_subset [of f a "int r"] frm by auto
    then have "length row = ncols a"
      using assms(1) by (simp add: rect_def list_all_iff)
    then have mem: "row ! i \<in> set row"
      using that by simp
    from assms(2) in_a have "\<forall>v \<in> set row. v = None"
      by (rule bspec)
    then have "row ! i = None"
      using mem by (rule bspec)
    then show "v = None"
      unfolding row(2) .
  qed
  then show ?thesis
    by (intro nth_equalityI) (simp_all add: new_num_missing_data_def nc)
qed

lemma sweep_all_nan:
  assumes "rect a" and "\<forall>row \<in> set (rows a). \<forall>v \<in> set row. v = None"
  shows "InterquartileVarianceAlgorithm_outliers cfg (A2 a) (full (nrows a) (ncols a) 0)
           = Inr (full (nrows a) (ncols a) False, full (nrows a) (ncols a) 0)"
proof -
  let ?nm = "full (nrows a) (ncols a) (0::int)"
  from sweep_ok [where nm = ?nm and data = a and ?data0.0 = "A2 a" and cfg = cfg,
      OF full_shape as_columns.simps(2)]
  obtain m nm' where
    res: "InterquartileVarianceAlgorithm_outliers cfg (A2 a) ?nm = Inr (m, nm')"
    and sh: "ncols m = ncols a" "nrows m = nrows a" "ncols nm' = ncols a" "nrows nm' = nrows a"
    and mr: "\<forall>r < nrows a. rows m ! r =
                  row_outliers cfg a r (generator (span_of cfg) a ! r)
                    (need_recalc (new_num_missing_data (generator (span_of cfg) a ! r))
                       (rows ?nm ! r))"
    and nr: "\<forall>r < nrows a. rows nm' ! r =
                  new_num_missing_data (generator (span_of cfg) a ! r)"
    by auto
  have new: "new_num_missing_data (generator (span_of cfg) a ! r) = replicate (ncols a) 0"
    if "r < nrows a" for r
    using new_num_missing_data_all_nan [OF assms that] .
  have old: "rows ?nm ! r = replicate (ncols a) 0" if "r < nrows a" for r
    using that by (simp add: full_def)
  have "rows m ! r = replicate (ncols a) False" if "r < nrows a" for r
  proof -
    have "rows m ! r = row_outliers cfg a r (generator (span_of cfg) a ! r)
                         (need_recalc (replicate (ncols a) 0) (replicate (ncols a) 0))"
      using mr that by (simp add: new old)
    then show ?thesis
      using ncols_generator [OF that, of "span_of cfg"]
      by (intro nth_equalityI) (simp_all add: row_outliers_def need_recalc_def)
  qed
  then have "rows m = rows (full (nrows a) (ncols a) False)"
    using sh by (intro nth_equalityI) (simp_all add: full_def nrows_def)
  then have m: "m = full (nrows a) (ncols a) False"
    using sh by (simp add: array2.expand full_def)
  have "rows nm' = rows ?nm"
    using sh nr new by (intro nth_equalityI) (simp_all add: full_def nrows_def)
  then have "nm' = ?nm"
    using sh by (simp add: array2.expand full_def)
  with res m show ?thesis
    by simp
qed

lemma np_sum_full_False: "np_sum (full r c False) = 0"
  by (simp add: np_sum_def full_def)

lemma add_mask_full_False: "add_mask (full r c 0) (full r c False) = full r c 0"
  by (simp add: add_mask_def full_def zip_replicate map_replicate_const)

lemma astype_bool_full_0: "astype_bool (full r c 0) = full r c False"
  by (simp add: astype_bool_def full_def)

text \<open>
  C7: for an input whose entries are all missing and no iteration cap, the sweep over the
  matrix with the zeroed memoization array returns the all-false mask (and leaves the
  memoization array zero), the loop ends after that sweep, so exactly one sweep is made,
  and the returned cumulative mask is all-false.
\<close>

theorem outliers_all_missing:
  assumes "d0 < length st0" and "rect (as_columns (st0 ! d0))"
    and "\<forall>row \<in> set (rows (as_columns (st0 ! d0))). \<forall>v \<in> set row. v = None"
  shows "InterquartileVarianceAlgorithm_outliers cfg (A2 (as_columns (st0 ! d0)))
           (full (nrows (as_columns (st0 ! d0))) (ncols (as_columns (st0 ! d0))) 0)
           = Inr (full (nrows (as_columns (st0 ! d0))) (ncols (as_columns (st0 ! d0))) False,
                  full (nrows (as_columns (st0 ! d0))) (ncols (as_columns (st0 ! d0))) 0)
         \<and> (\<exists>st'. OutlierDetector_outliers cfg st0 d0 None
                = Some (Inr (full (nrows (as_columns (st0 ! d0)))
                               (ncols (as_columns (st0 ! d0))) False, st', 1)))"
proof -
  let ?a = "as_columns (st0 ! d0)"
  let ?z = "full (nrows ?a) (ncols ?a) (0::nat)"
  let ?nm = "full (nrows ?a) (ncols ?a) (0::int)"
  let ?f = "full (nrows ?a) (ncols ?a) False"
  note sw = sweep_all_nan [OF assms(2,3), of cfg]
  from rebind_data_ok [OF assms(1)] obtain st d where
    rb: "rebind_data st0 d0 = (st, d)" and sd: "st ! d = A2 ?a"
    by blast
  have ac: "as_columns (st ! d) = ?a"
    by (simp add: sd)
  have "sweeps_while cfg d st ?z ?nm 0 = Some (Inr (?z, st, 1))"
    by (subst sweeps_while.simps)
      (simp add: sd sw np_sum_full_False add_mask_full_False)
  then have "OutlierDetector_outliers cfg st0 d0 None = Some (Inr (?f, st, 1))"
    unfolding OutlierDetector_outliers_def rb prod.case Let_def ac option.case
    by (simp add: finish_def astype_bool_full_0)
  with sw show ?thesis
    by blast
qed

theorem outliers_all_missing_witness:
  "0 < length [A2 (Array2 2 [[None, None], [None, None], [None :: val, None]])]
   \<and> rect (as_columns ([A2 (Array2 2 [[None, None], [None, None], [None :: val, None]])] ! 0))
   \<and> (\<exists>st'. OutlierDetector_outliers \<lparr>frame = 1, stdev_limit = 5, min_num_points = 20\<rparr>
               [A2 (Array2 2 [[None, None], [None, None], [None, None]])] 0 None
             = Some (Inr (Array2 2 [[False, False], [False, False], [False, False]], st', 1)))"
proof -
  let ?st = "[A2 (Array2 2 [[None, None], [None, None], [None :: val, None]])]"
  have h: "0 < length ?st" "rect (as_columns (?st ! 0))"
    "\<forall>row \<in> set (rows (as_columns (?st ! 0))). \<forall>v \<in> set row. v = None"
    by (simp_all add: rect_def)
  have f: "full (nrows (as_columns (?st ! 0))) (ncols (as_columns (?st ! 0))) False
             = Array2 2 [[False, False], [False, False], [False, False]]"
    by (simp add: full_def nrows_def eval_nat_numeral)
  from outliers_all_missing [OF h, of "\<lparr>frame = 1, stdev_limit = 5, min_num_points = 20\<rparr>"]
  have "\<exists>st'. OutlierDetector_outliers \<lparr>frame = 1, stdev_limit = 5, min_num_points = 20\<rparr>
               ?st 0 None
             = Some (Inr (Array2 2 [[False, False], [False, False], [False, False]], st', 1))"
    unfolding f by blast
  then show ?thesis
    using h(1,2) by blast
qed

section \<open>Properties of the curve flagging\<close>

text \<open>Every yielded pair is a range of existing rows, in order.\<close>

lemma curve_loop_bounds:
  "i < j \<Longrightarrow> j \<le> length ts \<Longrightarrow> (s, e) \<in> set (curve_loop ts bp ign i j)
     \<Longrightarrow> i \<le> s \<and> s \<le> e \<and> e < length ts"
proof (induction ts bp ign i j arbitrary: s e rule: curve_loop.induct)
  case (1 ts bp ign i j)
  show ?case
  proof (cases "j < length ts")
    case False
    then have "curve_loop ts bp ign i j = [(i, j - 1)]"
      by (subst curve_loop.simps) simp
    then show ?thesis
      using "1.prems" by auto
  next
    case True
    note j = this
    show ?thesis
    proof (cases "\<bar>ts ! j - ts ! (j - 1)\<bar> > bp")
      case False
      then have "curve_loop ts bp ign i j = curve_loop ts bp ign i (j + 1)"
        using j by (subst curve_loop.simps) simp
      then have "(s, e) \<in> set (curve_loop ts bp ign i (j + 1))"
        using "1.prems"(3) by simp
      then show ?thesis
        using "1.IH"(3) [OF j False, of s e] "1.prems"(1) j by simp
    next
      case True
      note gap = this
      show ?thesis
      proof (cases ign)
        case False
        then have "curve_loop ts bp ign i j = (i, j - 1) # curve_loop ts bp ign j (j + 1)"
          using j gap by (subst curve_loop.simps) simp
        then consider "(s, e) = (i, j - 1)" | "(s, e) \<in> set (curve_loop ts bp ign j (j + 1))"
          using "1.prems"(3) by auto
        then show ?thesis
        proof cases
          case 1
          then show ?thesis using "1.prems"(1) j by auto
        next
          case 2
          then show ?thesis
            using "1.IH"(1) [OF j gap, of s e] False "1.prems"(1) j by simp
        qed
      next
        case True
        then have "curve_loop ts bp ign i j = curve_loop ts bp False j (j + 1)"
          using j gap by (subst curve_loop.simps) simp
        then have "(s, e) \<in> set (curve_loop ts bp False j (j + 1))"
          using "1.prems"(3) by simp
        then show ?thesis
          using "1.IH"(2) [OF j gap, of s e] True "1.prems"(1) j by simp
      qed
    qed
  qed
qed

lemma FUC_curve_generator_bounds:
  assumes "ts \<noteq> []" and "(s, e) \<in> set (FUC_curve_generator ts bp ign)"
  shows "s \<le> e \<and> e < length ts"
proof -
  have "0 < (1::nat)" "1 \<le> length ts"
    using assms(1) by (simp_all add: Suc_leI)
  from curve_loop_bounds [OF this] assms(2) show ?thesis
    by (simp add: FUC_curve_generator_def)
qed

lemma py_slice_range:
  assumes "s \<le> e" and "e \<le> length xs"
  shows "py_slice (Some (int s)) (Some (int e)) xs = map (\<lambda>k. xs ! k) [s..<e]"
proof -
  have "py_slice (Some (int s)) (Some (int e)) xs = take (e - s) (drop s xs)"
    using assms by (simp add: py_slice_def slice_bound_def Let_def nat_diff_distrib')
  also have "\<dots> = map (\<lambda>k. xs ! k) [s..<s + (e - s)]"
    using assms by (intro take_drop_nth) simp
  finally show ?thesis
    using assms by simp
qed

text \<open>The slice that one iteration of the loop hands to \<^verbatim>\<open>FUC_tests\<close>.\<close>

lemma tested_slice:
  assumes "s \<le> e" and "e < length ts"
  shows "py_slice (Some (int s))
           (Some (int (if int e - int s = 0 then e + 1 else e))) (map snd ts)
         = (if e = s then [snd (ts ! s)] else map (\<lambda>k. snd (ts ! k)) [s..<e])"
proof (cases "e = s")
  case True
  have "py_slice (Some (int s)) (Some (int (s + 1))) (map snd ts)
          = map (\<lambda>k. map snd ts ! k) [s..<s + 1]"
    using assms True by (intro py_slice_range) simp_all
  then show ?thesis
    using assms True by simp
next
  case False
  have "py_slice (Some (int s)) (Some (int e)) (map snd ts)
          = map (\<lambda>k. map snd ts ! k) [s..<e]"
    using assms by (intro py_slice_range) simp_all
  then show ?thesis
    using assms False by simp
qed

lemma qc_loop_ok:
  assumes "\<forall>(s, e) \<in> set ps. s \<le> e \<and> e < length ts"
  shows "qc_loop ts span_co2 mp md ms ps out =
           Inr (out @ map (\<lambda>(s, e). (fst (ts ! s),
                              FUC_tests (if e = s then [snd (ts ! s)]
                                         else map (\<lambda>k. snd (ts ! k)) [s..<e])
                                span_co2 mp md ms)) ps)"
  using assms
proof (induction ps arbitrary: out)
  case Nil
  then show ?case by simp
next
  case (Cons p ps)
  obtain s e where p: "p = (s, e)"
    by (cases p)
  have b: "s \<le> e" "e < length ts"
    using Cons.prems p by auto
  have rest: "\<forall>(s, e) \<in> set ps. s \<le> e \<and> e < length ts"
    using Cons.prems by simp
  show ?case
    unfolding p qc_loop.simps Let_def tested_slice [OF b]
    using b Cons.IH [OF rest] by simp
qed

text \<open>
  C10: for a non-empty series, \<^verbatim>\<open>qc_FUC_timeseries\<close> returns one flag per curve
  \<open>(s, e)\<close> yielded by \<^verbatim>\<open>FUC_curve_generator\<close>, where \<open>s \<le> e\<close> are existing rows.  For
  \<open>e > s\<close> the flag is \<^verbatim>\<open>FUC_tests\<close> of the values of the rows \<open>s, \<dots>, e - 1\<close>: row \<open>e\<close>,
  the last measurement of the curve, is not among them.  For \<open>e = s\<close> it is
  \<^verbatim>\<open>FUC_tests\<close> of the one value of row \<open>s\<close>.
\<close>

theorem qc_tests_exclude_last_row:
  assumes "ts \<noteq> []"
  shows "qc_FUC_timeseries ts bp span_co2 mp md ms ign =
           Inr (map (\<lambda>(s, e). (fst (ts ! s),
                       FUC_tests (if e = s then [snd (ts ! s)]
                                  else map (\<lambda>k. snd (ts ! k)) [s..<e])
                         span_co2 mp md ms))
                  (FUC_curve_generator (map fst ts) bp ign))
         \<and> (\<forall>(s, e) \<in> set (FUC_curve_generator (map fst ts) bp ign).
               s \<le> e \<and> e < length ts)"
proof -
  have b: "\<forall>(s, e) \<in> set (FUC_curve_generator (map fst ts) bp ign). s \<le> e \<and> e < length ts"
    using FUC_curve_generator_bounds [of "map fst ts" _ _ bp ign] assms by auto
  from qc_loop_ok [OF b, of span_co2 mp md ms "[]"] b show ?thesis
    by (simp add: qc_FUC_timeseries_def)
qed

theorem qc_tests_exclude_last_row_witness:
  "[(0, Some 1), (1, Some 2), (2, Some 3), (10, Some 4)] \<noteq> ([] :: series)
   \<and> FUC_curve_generator (map fst [(0, Some 1), (1, Some 2), (2, Some 3), (10, Some (4::real))])
       5 False = [(0, 2), (3, 3)]
   \<and> qc_FUC_timeseries [(0, Some 1), (1, Some 2), (2, Some 3), (10, Some 4)]
       5 400 3 5 2.25 False
       = Inr [(0, FUC_tests [Some 1, Some 2] 400 3 5 2.25),
              (10, FUC_tests [Some 4] 400 3 5 2.25)]
   \<and> FUC_tests [Some 1, Some 2] 400 3 5 2.25"
proof -
  let ?ts = "[(0, Some 1), (1, Some 2), (2, Some 3), (10, Some 4)] :: series"
  have h: "?ts \<noteq> []"
    by simp
  have g: "FUC_curve_generator (map fst ?ts) 5 False = [(0, 2), (3, 3)]"
    unfolding FUC_curve_generator_def by code_simp
  have t: "FUC_tests [Some 1, Some 2] 400 3 5 2.25"
    by (simp add: FUC_tests_def)
  from qc_tests_exclude_last_row [OF h, of 5 400 3 5 "2.25" False, THEN conjunct1] show ?thesis
    unfolding g using g t by (simp add: upt_rec)
qed

end
